theory Spec2Isabelle
  imports Main
begin

section \<open>FastLoop: a shallow embedding of the rendering core\<close>

text \<open>
  The repository holds two implementations of one template renderer: the class
  \<^verbatim>\<open>FastLoop\<close> of \<^verbatim>\<open>javascript-fastloop.js\<close> and the jQuery plugin
  \<^verbatim>\<open>$.fn.loopHtml\<close>. Both render an array of items into the children of a container
  element: per item a markup string is produced (by a caller-supplied callback or by
  replacing \<^verbatim>\<open>{{key}}\<close> placeholders), a node is reused or created for it and
  appended to an off-tree fragment, the items are processed in batches of
  \<^verbatim>\<open>batchSize\<close> with \<^verbatim>\<open>requestAnimationFrame\<close> between two batches, and the
  fragment replaces the container's children after the last batch.
\<close>

subsection \<open>JavaScript values\<close>

text \<open>
  The values an item and its properties can be. Numbers are the integers (no fractions,
  no infinities, below \<^verbatim>\<open>1e21\<close> where the decimal form ends); \<open>JNaN\<close> is the number
  \<^verbatim>\<open>NaN\<close>. An object is the table of its property lookup, first binding first;
  functions and inherited (prototype) properties are not part of the model. Strings are
  lists of ASCII characters.
\<close>

datatype js_value =
    JUndefined
  | JNull
  | JBool bool
  | JNum int
  | JNaN
  | JStr string
  | JObj "(string \<times> js_value) list"
  | JArr "js_value list"

text \<open>What a \<^verbatim>\<open>throw\<close> carries: a \<^verbatim>\<open>TypeError\<close> of the engine, the
  \<^verbatim>\<open>SyntaxError\<close> that \<^verbatim>\<open>document.querySelector\<close> throws for a string that is no
  selector, or an \<^verbatim>\<open>Error\<close> constructed with a message.\<close>

datatype js_error = TypeError | SyntaxError | Error string

definition digit_char :: "nat \<Rightarrow> char" where
  "digit_char d = char_of (48 + d)"

function show_nat :: "nat \<Rightarrow> string" where
  "show_nat n = (if n < 10 then [digit_char n] else show_nat (n div 10) @ [digit_char (n mod 10)])"
  by pat_completeness auto
termination
  by (relation "measure (\<lambda>n. n)") auto

declare show_nat.simps [simp del]

definition show_int :: "int \<Rightarrow> string" where
  "show_int i = (if i < 0 then CHR ''-'' # show_nat (nat (- i)) else show_nat (nat i))"

fun join_comma :: "string list \<Rightarrow> string" where
  "join_comma [] = []"
| "join_comma [s] = s"
| "join_comma (s # t # ss) = s @ CHR '','' # join_comma (t # ss)"

definition nullish :: "js_value \<Rightarrow> bool" where
  "nullish v = (v = JUndefined \<or> v = JNull)"

text \<open>\<^verbatim>\<open>ToBoolean\<close>: the falsy values are undefined, null, false, 0, NaN and the empty
  string.\<close>

fun truthy :: "js_value \<Rightarrow> bool" where
  "truthy JUndefined = False"
| "truthy JNull = False"
| "truthy (JBool b) = b"
| "truthy (JNum n) = (n \<noteq> 0)"
| "truthy JNaN = False"
| "truthy (JStr s) = (s \<noteq> [])"
| "truthy (JObj kvs) = True"
| "truthy (JArr xs) = True"

text \<open>\<^verbatim>\<open>ToString\<close>, which \<^verbatim>\<open>String.prototype.replace\<close> applies to what its
  replacer function returns. An array joins its elements with commas, a null or
  undefined element giving the empty string.\<close>

fun to_string :: "js_value \<Rightarrow> string" where
  "to_string JUndefined = ''undefined''"
| "to_string JNull = ''null''"
| "to_string (JBool b) = (if b then ''true'' else ''false'')"
| "to_string (JNum n) = show_int n"
| "to_string JNaN = ''NaN''"
| "to_string (JStr s) = s"
| "to_string (JObj kvs) = ''[object Object]''"
| "to_string (JArr xs) =
     join_comma (map (\<lambda>v. if v = JUndefined \<or> v = JNull then [] else to_string v) xs)"

text \<open>The index a property key denotes in an array or string of length \<open>n\<close>: the key
  is the decimal form of an index below \<open>n\<close>.\<close>

definition index_of_key :: "string \<Rightarrow> nat \<Rightarrow> nat option" where
  "index_of_key key n = find (\<lambda>i. show_nat i = key) [0..<n]"

text \<open>\<^verbatim>\<open>item[key]\<close>: reading a property of undefined or null throws a TypeError; a
  missing property reads as undefined.\<close>

fun get_prop :: "js_value \<Rightarrow> string \<Rightarrow> js_error + js_value" where
  "get_prop JUndefined key = Inl TypeError"
| "get_prop JNull key = Inl TypeError"
| "get_prop (JObj kvs) key = Inr (case map_of kvs key of Some v \<Rightarrow> v | None \<Rightarrow> JUndefined)"
| "get_prop (JArr xs) key =
     Inr (if key = ''length'' then JNum (int (length xs))
          else case index_of_key key (length xs) of Some n \<Rightarrow> xs ! n | None \<Rightarrow> JUndefined)"
| "get_prop (JStr s) key =
     Inr (if key = ''length'' then JNum (int (length s))
          else case index_of_key key (length s) of Some n \<Rightarrow> JStr [s ! n] | None \<Rightarrow> JUndefined)"
| "get_prop (JBool b) key = Inr JUndefined"
| "get_prop (JNum n) key = Inr JUndefined"
| "get_prop JNaN key = Inr JUndefined"

subsection \<open>The placeholder substituter\<close>

text \<open>The class \<^verbatim>\<open>\w\<close> of the regular expression: letters, digits and the
  underscore.\<close>

definition is_word :: "char \<Rightarrow> bool" where
  "is_word c = (let n = (of_char c :: nat) in
     (48 \<le> n \<and> n \<le> 57) \<or> (65 \<le> n \<and> n \<le> 90) \<or> n = 95 \<or> (97 \<le> n \<and> n \<le> 122))"

text \<open>
  One attempt of \<^verbatim>\<open>/{{(\w+)}}/\<close> at the head of a string: two opening braces, the
  longest run of word characters, which must not be empty, and two closing braces. The
  result is the captured key and the text after the match.
\<close>

definition match_placeholder :: "string \<Rightarrow> (string \<times> string) option" where
  "match_placeholder s =
     (case s of
        c1 # c2 # cs \<Rightarrow>
          if c1 = CHR ''{'' \<and> c2 = CHR ''{'' then
            (case dropWhile is_word cs of
               d1 # d2 # rest \<Rightarrow>
                 if takeWhile is_word cs \<noteq> [] \<and> d1 = CHR ''}'' \<and> d2 = CHR ''}''
                 then Some (takeWhile is_word cs, rest) else None
             | _ \<Rightarrow> None)
          else None
      | _ \<Rightarrow> None)"

lemma match_placeholder_shorter:
  "match_placeholder s = Some (key, rest) \<Longrightarrow> length rest < length s"
proof -
  assume m: "match_placeholder s = Some (key, rest)"
  then obtain cs d1 d2 where "length s = Suc (Suc (length cs))"
    and d: "dropWhile is_word cs = d1 # d2 # rest"
    by (auto simp: match_placeholder_def split: list.splits if_splits)
  moreover have "length (dropWhile is_word cs) \<le> length cs"
    by (rule length_dropWhile_le)
  ultimately show ?thesis by simp
qed

text \<open>
  \<^verbatim>\<open>template.replace(/{{(\w+)}}/g, replacer)\<close>: the template is scanned from the left;
  where the pattern matches, the replacer is called with the key and its result is
  put in place of the match, and the scan goes on after the match; elsewhere the
  character is copied. A replacer that throws ends the call with its error.
\<close>

function replace_all :: "(string \<Rightarrow> js_error + string) \<Rightarrow> string \<Rightarrow> js_error + string" where
  "replace_all f [] = Inr []"
| "replace_all f (c # cs) =
     (case match_placeholder (c # cs) of
        Some (key, rest) \<Rightarrow>
          (case f key of
             Inl e \<Rightarrow> Inl e
           | Inr v \<Rightarrow> (case replace_all f rest of Inl e \<Rightarrow> Inl e | Inr out \<Rightarrow> Inr (v @ out)))
      | None \<Rightarrow> (case replace_all f cs of Inl e \<Rightarrow> Inl e | Inr out \<Rightarrow> Inr (c # out)))"
  by pat_completeness auto
termination
  by (relation "measure (\<lambda>(f, s). length s)") (auto dest: match_placeholder_shorter)

text \<open>The replacer of the class (\<^verbatim>\<open>javascript-fastloop.js\<close>, lines 105 to 108):
  \<^verbatim>\<open>if (key === 'index') return i + 1; return item[key] ?? '';\<close>\<close>

definition FastLoop_replacer :: "js_value \<Rightarrow> nat \<Rightarrow> string \<Rightarrow> js_error + string" where
  "FastLoop_replacer item i key =
     (if key = ''index'' then Inr (show_nat (i + 1))
      else case get_prop item key of
             Inl e \<Rightarrow> Inl e
           | Inr v \<Rightarrow> Inr (if nullish v then [] else to_string v))"

text \<open>The replacer of the plugin (lines 83 to 86):
  \<^verbatim>\<open>if (key === 'index') return i + 1; return item[key] || '';\<close>\<close>

definition loopHtml_replacer :: "js_value \<Rightarrow> nat \<Rightarrow> string \<Rightarrow> js_error + string" where
  "loopHtml_replacer item i key =
     (if key = ''index'' then Inr (show_nat (i + 1))
      else case get_prop item key of
             Inl e \<Rightarrow> Inl e
           | Inr v \<Rightarrow> Inr (if truthy v then to_string v else []))"

type_synonym substituter = "string \<Rightarrow> js_value \<Rightarrow> nat \<Rightarrow> js_error + string"

definition FastLoop_substitute :: substituter where
  "FastLoop_substitute tmpl item i = replace_all (FastLoop_replacer item i) tmpl"

definition loopHtml_substitute :: substituter where
  "loopHtml_substitute tmpl item i = replace_all (loopHtml_replacer item i) tmpl"

text \<open>\<^verbatim>\<open>String.prototype.trim\<close> on ASCII text: tab, line feed, vertical tab, form feed,
  carriage return and space are removed at both ends.\<close>

definition is_space :: "char \<Rightarrow> bool" where
  "is_space c = (let n = (of_char c :: nat) in (9 \<le> n \<and> n \<le> 13) \<or> n = 32)"

definition trim :: "string \<Rightarrow> string" where
  "trim s = rev (dropWhile is_space (rev (dropWhile is_space s)))"

subsection \<open>The document\<close>

text \<open>
  An element node has the tag and attributes it was created with, the markup last
  installed as its \<^verbatim>\<open>innerHTML\<close>, and the properties callers have attached to the
  node object. Nodes live in a store and are named by their index in it, so that a node
  keeps its identity while its content changes. The document holds the store, the
  container's child elements in order, and what was written to the console.
\<close>

record element =
  tag :: string
  innerHTML :: string
  expando :: "string list"

datatype log_entry = ConsoleError string "js_error option"

record dom =
  nodes :: "element list"
  children :: "nat list"
  console :: "log_entry list"

text \<open>
  The HTML parser of the host is a parameter of the model: \<open>parseHTML s\<close> is the first
  element child of an off-tree \<^verbatim>\<open>div\<close> whose \<^verbatim>\<open>innerHTML\<close> was set to \<open>s\<close>, and
  \<open>None\<close> where \<^verbatim>\<open>firstElementChild\<close> is \<^verbatim>\<open>null\<close>.
\<close>

type_synonym parser = "string \<Rightarrow> element option"

subsection \<open>Configuration and instance state\<close>

text \<open>
  The \<^verbatim>\<open>data\<close> option: an array of items; \<^verbatim>\<open>null\<close> or \<^verbatim>\<open>undefined\<close>; or a value
  that is no array and has no \<^verbatim>\<open>length\<close> property (a number, a boolean, a plain
  object). Strings and array-like objects are not part of the model.
  The \<^verbatim>\<open>template\<close> option: a string; an \<^verbatim>\<open>HTMLElement\<close>, given by its inner markup;
  or anything else. The \<^verbatim>\<open>container\<close> option of the class: a string, with what
  \<^verbatim>\<open>document.querySelector\<close> does for it (the string is no selector and the call
  throws, no element matches and the result is \<^verbatim>\<open>null\<close>, or the container is
  found); the container element; or anything else, also no container at all. The batch
  size is a natural number, 0 included; the two flags are booleans, read for their
  truth only.
\<close>

datatype data_value = DArray "js_value list" | DNullish | DNoLength

datatype template_value = TString string | TElement string | TOther

datatype query_result = BadSelector | NoMatch | Found

datatype container_value = CSelector query_result | CElement | COther

type_synonym callback = "string \<Rightarrow> js_value \<Rightarrow> nat \<Rightarrow> js_error + js_value"

record options =
  data :: data_value
  template :: template_value
  renderCallback :: "callback option"
  validateData :: bool
  batchSize :: nat
  reuseNodes :: bool

text \<open>
  The object a caller passes, before it is merged with the defaults. An option is not
  in the object, is there with the value \<^verbatim>\<open>undefined\<close>, or is there with another
  value: \<open>Passed DNullish\<close> is \<^verbatim>\<open>null\<close>, \<open>Passed TOther\<close> a value that is not
  undefined and neither a string nor an element, \<open>Passed None\<close> a callback option
  that is no function. The batch size is a natural number when it is passed: a batch
  size that is undefined or no number makes the arithmetic of \<^verbatim>\<open>processBatch\<close>
  yield \<^verbatim>\<open>NaN\<close> and is not part of the model.
\<close>

datatype 'a passed = Absent | Undefined | Passed 'a

record raw_options =
  o_data :: "data_value passed"
  o_template :: "template_value passed"
  o_renderCallback :: "callback option passed"
  o_validateData :: "bool passed"
  o_batchSize :: "nat option"
  o_reuseNodes :: "bool passed"

text \<open>The defaults, the same in both files (lines 12 to 20 of the class, 10 to 17 of
  the plugin).\<close>

definition default_options :: options where
  "default_options =
     \<lparr>data = DArray [], template = TString [], renderCallback = None,
      validateData = True, batchSize = 1000, reuseNodes = True\<rparr>"

text \<open>
  \<^verbatim>\<open>Object.assign(this.settings, options)\<close>, line 23 of the class: every property of
  the object replaces the default, also one whose value is \<^verbatim>\<open>undefined\<close>. An
  undefined \<^verbatim>\<open>data\<close> is then the data of the instance, an undefined template is no
  template, an undefined callback is no function, and an undefined flag is falsy.
\<close>

definition Object_assign :: "raw_options \<Rightarrow> options" where
  "Object_assign raw =
     \<lparr>data = (case o_data raw of
                Absent \<Rightarrow> data default_options | Undefined \<Rightarrow> DNullish | Passed v \<Rightarrow> v),
      template = (case o_template raw of
                Absent \<Rightarrow> template default_options | Undefined \<Rightarrow> TOther | Passed v \<Rightarrow> v),
      renderCallback = (case o_renderCallback raw of
                Absent \<Rightarrow> renderCallback default_options | Undefined \<Rightarrow> None | Passed v \<Rightarrow> v),
      validateData = (case o_validateData raw of
                Absent \<Rightarrow> validateData default_options | Undefined \<Rightarrow> False | Passed v \<Rightarrow> v),
      batchSize = (case o_batchSize raw of
                None \<Rightarrow> batchSize default_options | Some v \<Rightarrow> v),
      reuseNodes = (case o_reuseNodes raw of
                Absent \<Rightarrow> reuseNodes default_options | Undefined \<Rightarrow> False | Passed v \<Rightarrow> v)\<rparr>"

text \<open>
  \<^verbatim>\<open>$.extend(defaults, options)\<close>, lines 9 to 19 of the plugin: a property of the
  object replaces the default unless its value is \<^verbatim>\<open>undefined\<close>, which jQuery skips.
\<close>

definition jquery_extend :: "raw_options \<Rightarrow> options" where
  "jquery_extend raw =
     \<lparr>data = (case o_data raw of Passed v \<Rightarrow> v | _ \<Rightarrow> data default_options),
      template = (case o_template raw of Passed v \<Rightarrow> v | _ \<Rightarrow> template default_options),
      renderCallback = (case o_renderCallback raw of
                Passed v \<Rightarrow> v | _ \<Rightarrow> renderCallback default_options),
      validateData = (case o_validateData raw of
                Passed v \<Rightarrow> v | _ \<Rightarrow> validateData default_options),
      batchSize = (case o_batchSize raw of
                None \<Rightarrow> batchSize default_options | Some v \<Rightarrow> v),
      reuseNodes = (case o_reuseNodes raw of
                Passed v \<Rightarrow> v | _ \<Rightarrow> reuseNodes default_options)\<rparr>"

text \<open>
  The fields of a \<^verbatim>\<open>FastLoop\<close> object, which are the closure variables of the
  plugin, on top of the document: \<open>container\<close> tells whether \<^verbatim>\<open>this.container\<close> is
  an element (it is \<^verbatim>\<open>null\<close> when the selector matched nothing).
\<close>

record fastloop = dom +
  settings :: options
  container :: bool
  templateHtml :: string
  compiledTemplate :: "string option"
  existingNodes :: "nat list"

definition is_array :: "data_value \<Rightarrow> bool" where
  "is_array d = (case d of DArray xs \<Rightarrow> True | _ \<Rightarrow> False)"

definition log_error :: "string \<Rightarrow> js_error option \<Rightarrow> fastloop \<Rightarrow> fastloop" where
  "log_error msg e st = st\<lparr>console := console st @ [ConsoleError msg e]\<rparr>"

subsection \<open>One item\<close>

text \<open>
  Lines 95 to 109 of the class (73 to 87 of the plugin): the markup of item \<open>i\<close>. A
  callback, when one is configured, is called with the template, the item and the
  index, and may throw or return any value. Otherwise the template is cached on first
  use (\<^verbatim>\<open>if (!this.compiledTemplate) this.compiledTemplate = this.templateHtml\<close>,
  where a cache that is null, undefined or the empty string counts as not there) and
  the placeholders of the cached template are replaced.
\<close>

definition cached_template :: "fastloop \<Rightarrow> string" where
  "cached_template st =
     (case compiledTemplate st of
        None \<Rightarrow> templateHtml st
      | Some c \<Rightarrow> if c = [] then templateHtml st else c)"

definition item_html ::
  "substituter \<Rightarrow> nat \<Rightarrow> js_value \<Rightarrow> fastloop \<Rightarrow> (js_error + js_value) \<times> fastloop" where
  "item_html subst i item st =
     (case renderCallback (settings st) of
        Some cb \<Rightarrow> (cb (templateHtml st) item i, st)
      | None \<Rightarrow>
          (let st1 = st\<lparr>compiledTemplate := Some (cached_template st)\<rparr>
           in case subst (cached_template st) item i of
                Inl e \<Rightarrow> (Inl e, st1)
              | Inr s \<Rightarrow> (Inr (JStr s), st1)))"

text \<open>\<^verbatim>\<open>html.trim()\<close>: a value that is not a string has no \<^verbatim>\<open>trim\<close> method, and the
  call throws a TypeError.\<close>

definition js_trim :: "js_value \<Rightarrow> js_error + string" where
  "js_trim v = (case v of JStr s \<Rightarrow> Inr (trim s) | _ \<Rightarrow> Inl TypeError)"

text \<open>\<^verbatim>\<open>fragment.appendChild(element)\<close> for an element: the node leaves the parent it
  has, the container or the fragment, and becomes the last child of the fragment.\<close>

fun appendChild :: "nat \<Rightarrow> nat list \<times> fastloop \<Rightarrow> nat list \<times> fastloop" where
  "appendChild n (frag, st) =
     (filter (\<lambda>m. m \<noteq> n) frag @ [n], st\<lparr>children := filter (\<lambda>m. m \<noteq> n) (children st)\<rparr>)"

text \<open>
  The body of the \<^verbatim>\<open>for\<close> loop (lines 92 to 123 of the class, 70 to 101 of the
  plugin) on the fragment and the instance. An existing node at position \<open>i\<close> is reused:
  its inner markup is overwritten. Otherwise the markup is parsed and the first element
  is a new node of the store; where there is none, \<^verbatim>\<open>element\<close> is \<^verbatim>\<open>null\<close> and
  \<^verbatim>\<open>appendChild(null)\<close> throws a TypeError. The result is the error thrown, if any,
  with the fragment and the instance as they are then.
\<close>

fun process_item ::
  "parser \<Rightarrow> substituter \<Rightarrow> nat \<Rightarrow> js_value \<Rightarrow> nat list \<times> fastloop
     \<Rightarrow> js_error option \<times> nat list \<times> fastloop" where
  "process_item parseHTML subst i item (frag, st) =
     (case item_html subst i item st of
        (Inl e, st1) \<Rightarrow> (Some e, frag, st1)
      | (Inr html, st1) \<Rightarrow>
          if reuseNodes (settings st1) \<and> i < length (existingNodes st1) then
            (case js_trim html of
               Inl e \<Rightarrow> (Some e, frag, st1)
             | Inr h \<Rightarrow>
                 (let n = existingNodes st1 ! i;
                      st2 = st1\<lparr>nodes := (nodes st1)[n := (nodes st1 ! n)\<lparr>innerHTML := h\<rparr>]\<rparr>
                  in (None, appendChild n (frag, st2))))
          else
            (case js_trim html of
               Inl e \<Rightarrow> (Some e, frag, st1)
             | Inr h \<Rightarrow>
                 (case parseHTML h of
                    None \<Rightarrow> (Some TypeError, frag, st1)
                  | Some el \<Rightarrow>
                      (None, frag @ [length (nodes st1)], st1\<lparr>nodes := nodes st1 @ [el]\<rparr>))))"

text \<open>The \<^verbatim>\<open>for\<close> loop over the items of one batch, \<open>i\<close> being the index of the first:
  it stops at the first error.\<close>

fun process_items ::
  "parser \<Rightarrow> substituter \<Rightarrow> nat \<Rightarrow> js_value list \<Rightarrow> nat list \<times> fastloop
     \<Rightarrow> js_error option \<times> nat list \<times> fastloop" where
  "process_items parseHTML subst i [] fs = (None, fs)"
| "process_items parseHTML subst i (item # items) fs =
     (case process_item parseHTML subst i item fs of
        (Some e, fs') \<Rightarrow> (Some e, fs')
      | (None, fs') \<Rightarrow> process_items parseHTML subst (Suc i) items fs')"

subsection \<open>Batches\<close>

datatype outcome = Threw js_error | Scheduled nat | Finished

text \<open>
  The last branch of \<^verbatim>\<open>processBatch\<close> (lines 130 to 135 of the class, 108 to 112 of
  the plugin), \<open>n\<close> being where \<^verbatim>\<open>existingNodes.slice(data.length)\<close> starts: with
  \<^verbatim>\<open>reuseNodes\<close> the existing nodes from \<open>n\<close> on are removed from their parent; then
  the container is emptied and receives the children of the fragment, which is left
  empty. Emptying a container that is \<^verbatim>\<open>null\<close> throws a TypeError.
\<close>

fun commit :: "nat \<Rightarrow> nat list \<times> fastloop \<Rightarrow> outcome \<times> nat list \<times> fastloop" where
  "commit n (frag, st) =
     (let gone = (if reuseNodes (settings st) then drop n (existingNodes st) else []);
          frag1 = filter (\<lambda>m. m \<notin> set gone) frag;
          st1 = st\<lparr>children := filter (\<lambda>m. m \<notin> set gone) (children st)\<rparr>
      in if container st1 then (Finished, [], st1\<lparr>children := frag1\<rparr>)
         else (Threw TypeError, frag1, st1))"

text \<open>
  \<^verbatim>\<open>processBatch(startIndex)\<close> for the \<^verbatim>\<open>data\<close> and \<^verbatim>\<open>batchSize\<close> of the render
  call. Reading \<^verbatim>\<open>data.length\<close> of null or undefined throws. For a value without
  \<^verbatim>\<open>length\<close> the end index is \<^verbatim>\<open>NaN\<close>: the loop does not run, \<^verbatim>\<open>NaN < undefined\<close>
  is false, and \<^verbatim>\<open>slice(undefined)\<close> starts at 0. For an array the items from
  \<open>startIndex\<close> up to \<^verbatim>\<open>Math.min(startIndex + batchSize, data.length)\<close> are processed;
  then the next batch is scheduled, or the render is committed.
\<close>

fun processBatch ::
  "parser \<Rightarrow> substituter \<Rightarrow> data_value \<Rightarrow> nat \<Rightarrow> nat \<Rightarrow> nat list \<times> fastloop
     \<Rightarrow> outcome \<times> nat list \<times> fastloop" where
  "processBatch parseHTML subst DNullish bsz startIndex fs = (Threw TypeError, fs)"
| "processBatch parseHTML subst DNoLength bsz startIndex fs = commit 0 fs"
| "processBatch parseHTML subst (DArray xs) bsz startIndex fs =
     (let endIndex = min (startIndex + bsz) (length xs) in
      case process_items parseHTML subst startIndex
             (take (endIndex - startIndex) (drop startIndex xs)) fs of
        (Some e, fs') \<Rightarrow> (Threw e, fs')
      | (None, fs') \<Rightarrow>
          if endIndex < length xs then (Scheduled endIndex, fs') else commit (length xs) fs')"

subsection \<open>Render calls and animation frames\<close>

text \<open>
  What a render call leaves behind for \<^verbatim>\<open>requestAnimationFrame\<close>: the closure of
  \<^verbatim>\<open>processBatch\<close> (\<^verbatim>\<open>data\<close>, \<^verbatim>\<open>batchSize\<close> and the fragment) with the index the
  next batch starts at. A call or a frame is \<open>Complete\<close>, leaves such a continuation
  \<open>Pending\<close>, or lets an error escape to its caller.
\<close>

record session =
  s_data :: data_value
  s_batchSize :: nat
  s_fragment :: "nat list"

datatype status = Complete | Pending session nat | Escaped js_error

text \<open>Line 80 of the class (58 of the plugin): with \<^verbatim>\<open>reuseNodes\<close> the children of
  the container are captured; reading the children of \<^verbatim>\<open>null\<close> throws.\<close>

definition capture :: "fastloop \<Rightarrow> js_error + fastloop" where
  "capture st =
     (if reuseNodes (settings st) then
        (if container st then Inr (st\<lparr>existingNodes := children st\<rparr>) else Inl TypeError)
      else Inr st)"

text \<open>
  \<^verbatim>\<open>render(data)\<close> (lines 71 to 145 of the class, 49 to 122 of the plugin): nothing
  happens for an empty template; otherwise the first batch runs inside \<^verbatim>\<open>try\<close>, and an
  error thrown there is caught and passed to \<^verbatim>\<open>console.error\<close>.
\<close>

definition render :: "parser \<Rightarrow> substituter \<Rightarrow> data_value \<Rightarrow> fastloop \<Rightarrow> status \<times> fastloop" where
  "render parseHTML subst dat st =
     (if templateHtml st = [] then (Complete, st)
      else
        (let bsz = batchSize (settings st) in
         case capture st of
           Inl e \<Rightarrow> (Complete, log_error ''Render error:'' (Some e) st)
         | Inr st1 \<Rightarrow>
             (case processBatch parseHTML subst dat bsz 0 ([], st1) of
                (Threw e, frag, st2) \<Rightarrow> (Complete, log_error ''Render error:'' (Some e) st2)
              | (Scheduled k, frag, st2) \<Rightarrow>
                  (Pending \<lparr>s_data = dat, s_batchSize = bsz, s_fragment = frag\<rparr> k, st2)
              | (Finished, frag, st2) \<Rightarrow> (Complete, st2))))"

text \<open>The callback \<^verbatim>\<open>() => processBatch(endIndex)\<close> run by the host in a later frame,
  outside the \<^verbatim>\<open>try\<close> of the render call: an error thrown there is not caught.\<close>

definition frame :: "parser \<Rightarrow> substituter \<Rightarrow> session \<Rightarrow> nat \<Rightarrow> fastloop \<Rightarrow> status \<times> fastloop" where
  "frame parseHTML subst sess k st =
     (case processBatch parseHTML subst (s_data sess) (s_batchSize sess) k (s_fragment sess, st) of
        (Threw e, frag, st1) \<Rightarrow> (Escaped e, st1)
      | (Scheduled k', frag, st1) \<Rightarrow> (Pending (sess\<lparr>s_fragment := frag\<rparr>) k', st1)
      | (Finished, frag, st1) \<Rightarrow> (Complete, st1))"

text \<open>The host running the pending callback frame after frame, at most \<open>fuel\<close> frames:
  \<open>None\<close> when a callback is still pending after them.\<close>

fun run_frames ::
  "parser \<Rightarrow> substituter \<Rightarrow> nat \<Rightarrow> status \<times> fastloop \<Rightarrow> (status \<times> fastloop) option" where
  "run_frames parseHTML subst fuel (Pending sess k, st) =
     (case fuel of
        0 \<Rightarrow> None
      | Suc m \<Rightarrow> run_frames parseHTML subst m (frame parseHTML subst sess k st))"
| "run_frames parseHTML subst fuel (Complete, st) = Some (Complete, st)"
| "run_frames parseHTML subst fuel (Escaped e, st) = Some (Escaped e, st)"

subsection \<open>The class\<close>

definition FastLoop_render :: "parser \<Rightarrow> data_value \<Rightarrow> fastloop \<Rightarrow> status \<times> fastloop" where
  "FastLoop_render parseHTML dat st = render parseHTML FastLoop_substitute dat st"

text \<open>\<^verbatim>\<open>updateData(newData)\<close>, lines 151 to 154.\<close>

definition FastLoop_updateData :: "parser \<Rightarrow> data_value \<Rightarrow> fastloop \<Rightarrow> status \<times> fastloop" where
  "FastLoop_updateData parseHTML newData st =
     (let st1 = st\<lparr>settings := (settings st)\<lparr>data := newData\<rparr>\<rparr>
      in FastLoop_render parseHTML (data (settings st1)) st1)"

text \<open>\<^verbatim>\<open>init()\<close>, lines 47 to 64: the data and the template are checked, with a
  \<^verbatim>\<open>throw\<close> where a check fails, and the initial render follows.\<close>

definition FastLoop_init :: "parser \<Rightarrow> fastloop \<Rightarrow> js_error + status \<times> fastloop" where
  "FastLoop_init parseHTML st =
     (if validateData (settings st) \<and> \<not> is_array (data (settings st)) then
        Inl (Error ''Data must be an array!'')
      else
        (case template (settings st) of
           TElement html \<Rightarrow>
             Inr (FastLoop_render parseHTML (data (settings st)) (st\<lparr>templateHtml := html\<rparr>))
         | TString s \<Rightarrow>
             Inr (FastLoop_render parseHTML (data (settings st)) (st\<lparr>templateHtml := s\<rparr>))
         | TOther \<Rightarrow> Inl (Error ''Invalid template format!'')))"

text \<open>
  The constructor, lines 10 to 41, on the document it finds, for the container option
  and the other options the caller passes: \<open>Inl\<close> is the error thrown out of
  \<^verbatim>\<open>new FastLoop(options)\<close>, the document being as before. The options are merged
  into the defaults; a container string goes to \<^verbatim>\<open>document.querySelector\<close>, which
  throws, returns \<^verbatim>\<open>null\<close> or returns the container; then \<^verbatim>\<open>init\<close> runs.
\<close>

definition FastLoop_new ::
  "parser \<Rightarrow> container_value \<Rightarrow> raw_options \<Rightarrow> dom \<Rightarrow> js_error + status \<times> fastloop" where
  "FastLoop_new parseHTML cont raw d =
     (let mk = (\<lambda>present.
            \<lparr>nodes = nodes d, children = children d, console = console d,
             settings = Object_assign raw, container = present, templateHtml = [],
             compiledTemplate = None, existingNodes = []\<rparr>)
      in case cont of
           CSelector BadSelector \<Rightarrow> Inl SyntaxError
         | CSelector NoMatch \<Rightarrow> FastLoop_init parseHTML (mk False)
         | CSelector Found \<Rightarrow> FastLoop_init parseHTML (mk True)
         | CElement \<Rightarrow> FastLoop_init parseHTML (mk True)
         | COther \<Rightarrow> Inl (Error ''Invalid container. Must be a CSS selector or HTMLElement''))"

subsection \<open>The plugin\<close>

definition loopHtml_render :: "parser \<Rightarrow> data_value \<Rightarrow> fastloop \<Rightarrow> status \<times> fastloop" where
  "loopHtml_render parseHTML dat st = render parseHTML loopHtml_substitute dat st"

text \<open>
  The function that \<^verbatim>\<open>loopHtml\<close> runs for one matched element (lines 22 to 149), on
  the merged settings and the document it finds. A failed check is written to the console and the function
  returns with nothing installed; otherwise the initial render runs. The listener for
  data updates and the handle stored with \<^verbatim>\<open>$container.data\<close> are not part of the
  document and are left out.
\<close>

datatype plugin_result = NotInstalled dom | Installed status fastloop

definition loopHtml_each :: "parser \<Rightarrow> options \<Rightarrow> dom \<Rightarrow> plugin_result" where
  "loopHtml_each parseHTML opts d =
     (let start = (\<lambda>t.
            case loopHtml_render parseHTML (data opts)
                   \<lparr>nodes = nodes d, children = children d, console = console d,
                    settings = opts, container = True, templateHtml = t,
                    compiledTemplate = None, existingNodes = []\<rparr> of
              (s, st) \<Rightarrow> Installed s st)
      in if validateData opts \<and> \<not> is_array (data opts) then
           NotInstalled (d\<lparr>console := console d @ [ConsoleError ''Data must be an array!'' None]\<rparr>)
         else
           (case template opts of
              TElement html \<Rightarrow> start html
            | TString s \<Rightarrow> start s
            | TOther \<Rightarrow>
                NotInstalled
                  (d\<lparr>console := console d @ [ConsoleError ''Invalid template format!'' None]\<rparr>)))"

text \<open>\<^verbatim>\<open>$(element).loopHtml(options)\<close> for one matched element: the options are
  merged into the defaults (lines 9 to 19) and the function above runs.\<close>

definition loopHtml :: "parser \<Rightarrow> raw_options \<Rightarrow> dom \<Rightarrow> plugin_result" where
  "loopHtml parseHTML raw d = loopHtml_each parseHTML (jquery_extend raw) d"

text \<open>The listener of the update event (lines 129 to 132):
  \<^verbatim>\<open>settings.data = newData; render(settings.data)\<close>.\<close>

definition loopHtml_onUpdate :: "parser \<Rightarrow> data_value \<Rightarrow> fastloop \<Rightarrow> status \<times> fastloop" where
  "loopHtml_onUpdate parseHTML newData st =
     (let st1 = st\<lparr>settings := (settings st)\<lparr>data := newData\<rparr>\<rparr>
      in loopHtml_render parseHTML (data (settings st1)) st1)"

text \<open>The document of an instance.\<close>

definition dom_of :: "fastloop \<Rightarrow> dom" where
  "dom_of st = \<lparr>nodes = nodes st, children = children st, console = console st\<rparr>"

subsection \<open>One pass over the whole array\<close>

text \<open>
  What the batches are compared with: the items from position \<open>k\<close> on are processed
  from left to right in one go; the first error ends the pass, and without an error
  the render is committed. \<open>one_pass\<close> is the whole render done so, from the first
  item, without any scheduling.
\<close>

definition pass_from ::
  "parser \<Rightarrow> substituter \<Rightarrow> js_value list \<Rightarrow> nat \<Rightarrow> nat list \<times> fastloop \<Rightarrow> fastloop" where
  "pass_from parseHTML subst xs k fs =
     (case process_items parseHTML subst k (drop k xs) fs of
        (Some e, frag, st) \<Rightarrow> st
      | (None, fs') \<Rightarrow> snd (snd (commit (length xs) fs')))"

definition one_pass :: "parser \<Rightarrow> substituter \<Rightarrow> js_value list \<Rightarrow> fastloop \<Rightarrow> fastloop" where
  "one_pass parseHTML subst xs st =
     (if templateHtml st = [] then st
      else case capture st of
             Inl e \<Rightarrow> st
           | Inr st1 \<Rightarrow> pass_from parseHTML subst xs 0 ([], st1))"

text \<open>The trimmed markup of item \<open>i\<close>, or the error that producing it throws.\<close>

definition markup :: "substituter \<Rightarrow> fastloop \<Rightarrow> nat \<Rightarrow> js_value \<Rightarrow> js_error + string" where
  "markup subst st i item =
     (case fst (item_html subst i item st) of Inl e \<Rightarrow> Inl e | Inr v \<Rightarrow> js_trim v)"

text \<open>The number of animation frames a render of \<open>n\<close> items in batches of \<open>b\<close> needs
  after the render call, which runs the first batch itself.\<close>

definition frames_needed :: "nat \<Rightarrow> nat \<Rightarrow> nat" where
  "frames_needed n b = (n - 1) div b"

subsection \<open>A sample document\<close>

text \<open>
  The inputs of the examples below. \<open>p_parser\<close> is the host's parser on the markup the
  examples use, and only there: for \<^verbatim>\<open><p>text</p>\<close> with a text free of tags the
  first element is the paragraph with that text, and markup that does not start with
  a tag, as plain text, has no element.
\<close>

definition p_parser :: parser where
  "p_parser s =
     (case s of
        c1 # c2 # c3 # r \<Rightarrow>
          if [c1, c2, c3] = ''<p>'' \<and> 4 \<le> length r \<and> drop (length r - 4) r = ''</p>''
             \<and> CHR ''<'' \<notin> set (take (length r - 4) r)
          then Some \<lparr>tag = ''p'', innerHTML = take (length r - 4) r, expando = []\<rparr>
          else None
      | _ \<Rightarrow> None)"

definition demo_items :: "js_value list" where
  "demo_items =
     [JObj [(''name'', JStr ''A'')], JObj [(''name'', JStr ''B'')], JObj [(''name'', JStr ''C'')]]"

definition demo_dom :: dom where
  "demo_dom =
     \<lparr>nodes = [\<lparr>tag = ''li'', innerHTML = ''w'', expando = [''marker'']\<rparr>,
               \<lparr>tag = ''li'', innerHTML = ''x'', expando = []\<rparr>],
      children = [0, 1], console = []\<rparr>"

definition demo_options :: options where
  "demo_options =
     \<lparr>data = DArray demo_items, template = TString ''<p>{{index}}:{{name}}</p>'',
      renderCallback = None, validateData = True, batchSize = 2, reuseNodes = True\<rparr>"

text \<open>The object a caller passes to get \<open>demo_options\<close> on either surface.\<close>

definition demo_raw :: raw_options where
  "demo_raw =
     \<lparr>o_data = Passed (DArray demo_items),
      o_template = Passed (TString ''<p>{{index}}:{{name}}</p>''),
      o_renderCallback = Absent, o_validateData = Absent, o_batchSize = Some 2,
      o_reuseNodes = Absent\<rparr>"

text \<open>The instance that \<open>demo_options\<close> gives on \<open>demo_dom\<close>, before its first render.\<close>

definition demo_state :: fastloop where
  "demo_state =
     \<lparr>nodes = nodes demo_dom, children = children demo_dom, console = console demo_dom,
      settings = demo_options, container = True, templateHtml = ''<p>{{index}}:{{name}}</p>'',
      compiledTemplate = None, existingNodes = []\<rparr>"

text \<open>
  Two more inputs. A callback that throws for the item at index 1 and returns a
  paragraph for every other item, configured on the sample instance; and an instance
  with an empty container whose template is the placeholder \<^verbatim>\<open>{{t}}\<close> alone, so that
  the markup of an item is its property \<^verbatim>\<open>t\<close>: plain text for the first item of
  \<open>plain_items\<close>, a paragraph for the second.
\<close>

definition throwing_callback :: callback where
  "throwing_callback t item i = (if i = 1 then Inl (Error ''boom'') else Inr (JStr ''<p>ok</p>''))"

definition throwing_state :: fastloop where
  "throwing_state = demo_state\<lparr>settings := (settings demo_state)\<lparr>renderCallback := Some throwing_callback\<rparr>\<rparr>"

definition plain_items :: "js_value list" where
  "plain_items = [JObj [(''t'', JStr ''plain text'')], JObj [(''t'', JStr ''<p>ok</p>'')]]"

definition plain_state :: fastloop where
  "plain_state =
     \<lparr>nodes = [], children = [], console = [],
      settings = \<lparr>data = DArray plain_items, template = TString ''{{t}}'',
                  renderCallback = None, validateData = True, batchSize = 1000,
                  reuseNodes = True\<rparr>,
      container = True, templateHtml = ''{{t}}'', compiledTemplate = None,
      existingNodes = []\<rparr>"

text \<open>Three items for the sample instance, two of which have a property named
  \<^verbatim>\<open>index\<close> of their own.\<close>

definition own_index_items :: "js_value list" where
  "own_index_items =
     [JObj [(''name'', JStr ''A'')],
      JObj [(''index'', JStr ''own''), (''name'', JStr ''B'')],
      JObj [(''name'', JStr ''C''), (''index'', JNum 7)]]"

section \<open>The substituter: placeholders are replaced one by one\<close>

lemma not_word_brace [simp]: "\<not> is_word CHR ''{''" "\<not> is_word CHR ''}''"
  by (simp_all add: is_word_def)

lemma match_placeholder_exact:
  assumes "key \<noteq> []" and "\<forall>c \<in> set key. is_word c"
  shows "match_placeholder (''{{'' @ key @ ''}}'' @ rest) = Some (key, rest)"
proof -
  have t: "takeWhile is_word (key @ ''}}'' @ rest) = key"
    using assms(2) by (simp add: takeWhile_append2)
  have d: "dropWhile is_word (key @ ''}}'' @ rest) = ''}}'' @ rest"
    using assms(2) by (simp add: dropWhile_append2)
  show ?thesis
    using assms(1) t d by (simp add: match_placeholder_def)
qed

lemma match_placeholder_before_braces:
  assumes "pre \<noteq> []" and y: "y = ''{{'' @ x"
  shows "match_placeholder (pre @ y) =
         map_option (\<lambda>(k, r). (k, r @ y)) (match_placeholder pre)"
proof (cases pre)
  case Nil
  with assms show ?thesis by simp
next
  case (Cons c1 tl1)
  show ?thesis
  proof (cases tl1)
    case Nil
    with Cons y show ?thesis by (simp add: match_placeholder_def split: list.splits)
  next
    case (Cons c2 cs)
    note pre = \<open>pre = c1 # tl1\<close> \<open>tl1 = c2 # cs\<close>
    show ?thesis
    proof (cases "\<forall>c \<in> set cs. is_word c")
      case True
      then have h: "takeWhile is_word (cs @ CHR ''{'' # CHR ''{'' # x) = cs"
        "dropWhile is_word (cs @ CHR ''{'' # CHR ''{'' # x) = CHR ''{'' # CHR ''{'' # x"
        "dropWhile is_word cs = []"
        by (simp_all add: takeWhile_append2 dropWhile_append2)
      show ?thesis using pre y by (simp add: match_placeholder_def h)
    next
      case False
      then obtain b where b: "b \<in> set cs" "\<not> is_word b" by blast
      then have t: "takeWhile is_word (cs @ y) = takeWhile is_word cs"
        and d: "dropWhile is_word (cs @ y) = dropWhile is_word cs @ y"
        by (simp_all add: takeWhile_append1 dropWhile_append1)
      from b have "dropWhile is_word cs \<noteq> []" by auto
      then obtain d1 ds where ds: "dropWhile is_word cs = d1 # ds"
        by (cases "dropWhile is_word cs") auto
      show ?thesis
        using pre t d ds y by (cases ds) (simp_all add: match_placeholder_def)
    qed
  qed
qed

lemma replace_all_before_braces:
  assumes y: "y = ''{{'' @ x"
  shows "replace_all f (pre @ y) =
     (case replace_all f pre of
        Inl e \<Rightarrow> Inl e
      | Inr a \<Rightarrow> (case replace_all f y of Inl e \<Rightarrow> Inl e | Inr b \<Rightarrow> Inr (a @ b)))"
proof (induction f pre rule: replace_all.induct)
  case (1 f)
  show ?case by (simp split: sum.splits)
next
  case (2 f c cs)
  have m: "match_placeholder ((c # cs) @ y) =
           map_option (\<lambda>(k, r). (k, r @ y)) (match_placeholder (c # cs))"
    by (rule match_placeholder_before_braces [OF _ y]) simp
  show ?case
  proof (cases "match_placeholder (c # cs)")
    case None
    with m have n: "match_placeholder (c # cs @ y) = None" by simp
    note ih = 2(1) [OF None]
    from None n show ?thesis by (simp add: ih split: sum.splits)
  next
    case (Some kr)
    obtain k r where kr: "kr = (k, r)" by (cases kr)
    with Some m have n: "match_placeholder (c # cs @ y) = Some (k, r @ y)" by simp
    have ih: "replace_all f (r @ y) =
       (case replace_all f r of
          Inl e \<Rightarrow> Inl e
        | Inr a \<Rightarrow> (case replace_all f y of Inl e \<Rightarrow> Inl e | Inr b \<Rightarrow> Inr (a @ b)))"
      if "f k = Inr v" for v
      using 2(2) Some kr that by simp
    show ?thesis
    proof (cases "f k")
      case (Inl e)
      with Some kr n show ?thesis by simp
    next
      case (Inr v)
      with Some kr n show ?thesis by (simp add: ih [OF Inr] split: sum.splits)
    qed
  qed
qed

lemma replace_all_placeholder:
  assumes "key \<noteq> []" and "\<forall>c \<in> set key. is_word c"
  shows "replace_all f (pre @ ''{{'' @ key @ ''}}'' @ rest) =
     (case replace_all f pre of
        Inl e \<Rightarrow> Inl e
      | Inr a \<Rightarrow>
          (case f key of
             Inl e \<Rightarrow> Inl e
           | Inr v \<Rightarrow> (case replace_all f rest of Inl e \<Rightarrow> Inl e | Inr b \<Rightarrow> Inr (a @ v @ b))))"
proof -
  have "match_placeholder (CHR ''{'' # ''{'' @ key @ ''}}'' @ rest) = Some (key, rest)"
    using match_placeholder_exact [OF assms, of rest] by simp
  then have "replace_all f (''{{'' @ key @ ''}}'' @ rest) =
      (case f key of
         Inl e \<Rightarrow> Inl e
       | Inr v \<Rightarrow> (case replace_all f rest of Inl e \<Rightarrow> Inl e | Inr b \<Rightarrow> Inr (v @ b)))"
    by simp
  then show ?thesis
    using replace_all_before_braces [of "''{{'' @ key @ ''}}'' @ rest" "key @ ''}}'' @ rest" f pre]
    by (simp split: sum.splits)
qed

lemma index_is_word: "\<forall>c \<in> set ''index''. is_word c"
  by (simp add: is_word_def)

text \<open>
  In the class, a placeholder with a key other than \<^verbatim>\<open>index\<close>, wherever it stands in
  the template, is replaced by the string form of the item's value for the key, or by
  nothing when the value is undefined or null; the text before and the text after are
  substituted on their own, and the inserted value is not scanned again.
\<close>

lemma FastLoop_substitute_placeholder:
  assumes "key \<noteq> []" and "\<forall>c \<in> set key. is_word c" and "key \<noteq> ''index''"
  shows "FastLoop_substitute (pre @ ''{{'' @ key @ ''}}'' @ rest) item i =
     (case FastLoop_substitute pre item i of
        Inl e \<Rightarrow> Inl e
      | Inr a \<Rightarrow>
          (case get_prop item key of
             Inl e \<Rightarrow> Inl e
           | Inr v \<Rightarrow>
               (case FastLoop_substitute rest item i of
                  Inl e \<Rightarrow> Inl e
                | Inr b \<Rightarrow> Inr (a @ (if nullish v then [] else to_string v) @ b))))"
proof -
  have r: "FastLoop_replacer item i key =
      (case get_prop item key of
         Inl e \<Rightarrow> Inl e
       | Inr v \<Rightarrow> Inr (if nullish v then [] else to_string v))"
    using assms(3) by (simp add: FastLoop_replacer_def)
  show ?thesis
    unfolding FastLoop_substitute_def replace_all_placeholder [OF assms(1,2)] r
    by (simp split: sum.splits)
qed

text \<open>
  Claim C2: a placeholder whose key is absent or whose value is nullish is replaced by
  the empty string, and any other value by its string form. The class does so
  (\<open>FastLoop_substitute_placeholder\<close>); the plugin tests the value with \<^verbatim>\<open>||\<close> and
  replaces the number 0, which is present and has the string form \<^verbatim>\<open>0\<close>, by the
  empty string.
\<close>

theorem loopHtml_substitute_drops_zero:
  "get_prop (JObj [(''qty'', JNum 0)]) ''qty'' = Inr (JNum 0) \<and>
   to_string (JNum 0) = ''0'' \<and>
   FastLoop_substitute ''<td>{{qty}}</td>'' (JObj [(''qty'', JNum 0)]) 0 = Inr ''<td>0</td>'' \<and>
   loopHtml_substitute ''<td>{{qty}}</td>'' (JObj [(''qty'', JNum 0)]) 0 = Inr ''<td></td>''"
  by code_simp

text \<open>
  In both substituters an occurrence of \<^verbatim>\<open>{{index}}\<close>, wherever it stands in the
  template, is replaced by the decimal form of the index argument plus one, whatever
  the item is; the text before and the text after are substituted on their own.
\<close>

lemma substitute_index_placeholder:
  "FastLoop_substitute (pre @ ''{{index}}'' @ rest) item i =
     (case FastLoop_substitute pre item i of
        Inl e \<Rightarrow> Inl e
      | Inr a \<Rightarrow>
          (case FastLoop_substitute rest item i of
             Inl e \<Rightarrow> Inl e
           | Inr b \<Rightarrow> Inr (a @ show_nat (i + 1) @ b)))
   \<and> loopHtml_substitute (pre @ ''{{index}}'' @ rest) item i =
     (case loopHtml_substitute pre item i of
        Inl e \<Rightarrow> Inl e
      | Inr a \<Rightarrow>
          (case loopHtml_substitute rest item i of
             Inl e \<Rightarrow> Inl e
           | Inr b \<Rightarrow> Inr (a @ show_nat (i + 1) @ b)))"
proof -
  have k: "''index'' \<noteq> []" by simp
  have s: "pre @ ''{{index}}'' @ rest = pre @ ''{{'' @ ''index'' @ ''}}'' @ rest" by simp
  have r: "FastLoop_replacer item i ''index'' = Inr (show_nat (i + 1))"
    "loopHtml_replacer item i ''index'' = Inr (show_nat (i + 1))"
    by (simp_all add: FastLoop_replacer_def loopHtml_replacer_def)
  show ?thesis
    unfolding FastLoop_substitute_def loopHtml_substitute_def s
      replace_all_placeholder [OF k index_is_word] r
    by (simp split: sum.splits)
qed

section \<open>What one item does to the instance and the document\<close>

lemma item_html_state:
  "snd (item_html S i item st) = st \<or>
   snd (item_html S i item st) = st\<lparr>compiledTemplate := Some (cached_template st)\<rparr>"
  by (simp add: item_html_def Let_def split: option.splits sum.splits)

lemma cached_template_idem:
  "cached_template (st\<lparr>compiledTemplate := Some (cached_template st)\<rparr>) = cached_template st"
  by (simp add: cached_template_def split: option.splits)

lemma item_html_keeps:
  "settings (snd (item_html S i item st)) = settings st"
  "container (snd (item_html S i item st)) = container st"
  "templateHtml (snd (item_html S i item st)) = templateHtml st"
  "existingNodes (snd (item_html S i item st)) = existingNodes st"
  "console (snd (item_html S i item st)) = console st"
  "nodes (snd (item_html S i item st)) = nodes st"
  "children (snd (item_html S i item st)) = children st"
  "cached_template (snd (item_html S i item st)) = cached_template st"
  using item_html_state [of S i item st] cached_template_idem [of st]
  by auto

lemma markup_cong:
  assumes "renderCallback (settings st') = renderCallback (settings st)"
    and "templateHtml st' = templateHtml st"
    and "cached_template st' = cached_template st"
  shows "markup S st' i item = markup S st i item"
  using assms by (simp add: markup_def item_html_def Let_def split: option.splits sum.splits)

lemma process_item_markup:
  "process_item P S i item (f, st) =
    (case markup S st i item of
       Inl e \<Rightarrow> (Some e, f, snd (item_html S i item st))
     | Inr h \<Rightarrow>
        if reuseNodes (settings st) \<and> i < length (existingNodes st) then
          (None, filter (\<lambda>m. m \<noteq> existingNodes st ! i) f @ [existingNodes st ! i],
             (snd (item_html S i item st))
               \<lparr>nodes := (nodes st)[existingNodes st ! i :=
                   (nodes st ! (existingNodes st ! i))\<lparr>innerHTML := h\<rparr>],
                children := filter (\<lambda>m. m \<noteq> existingNodes st ! i) (children st)\<rparr>)
        else (case P h of
                None \<Rightarrow> (Some TypeError, f, snd (item_html S i item st))
              | Some el \<Rightarrow>
                  (None, f @ [length (nodes st)],
                   (snd (item_html S i item st))\<lparr>nodes := nodes st @ [el]\<rparr>)))"
proof -
  obtain r st1 where p: "item_html S i item st = (r, st1)"
    by (cases "item_html S i item st")
  have k: "settings st1 = settings st" "existingNodes st1 = existingNodes st"
    "nodes st1 = nodes st" "children st1 = children st"
    using item_html_keeps [of S i item st] p by simp_all
  show ?thesis
    by (simp add: p k markup_def Let_def split: sum.splits option.splits)
qed

lemma process_item_shape:
  assumes "process_item P S i item (f, st) = (r, f', st')"
  shows "\<exists>ns cs. st' = (snd (item_html S i item st))\<lparr>nodes := ns, children := cs\<rparr>"
proof -
  define st1 where "st1 = snd (item_html S i item st)"
  from assms consider (same) "st' = st1"
    | (reuse) ns cs where "st' = st1\<lparr>nodes := ns, children := cs\<rparr>"
    | (fresh) ns where "st' = st1\<lparr>nodes := ns\<rparr>"
    unfolding process_item_markup st1_def [symmetric]
    by (auto split: sum.splits option.splits if_splits)
  then show ?thesis
  proof cases
    case same
    then have "st' = st1\<lparr>nodes := nodes st1, children := children st1\<rparr>" by simp
    then show ?thesis unfolding st1_def by blast
  next
    case reuse
    then show ?thesis unfolding st1_def by blast
  next
    case fresh
    then have "st' = st1\<lparr>nodes := ns, children := children st1\<rparr>" by simp
    then show ?thesis unfolding st1_def by blast
  qed
qed


lemma cached_template_dom [simp]:
  "cached_template (st\<lparr>nodes := ns\<rparr>) = cached_template st"
  "cached_template (st\<lparr>children := cs\<rparr>) = cached_template st"
  by (simp_all add: cached_template_def split: option.splits)

lemma process_item_keeps:
  assumes "process_item P S i item (f, st) = (r, f', st')"
  shows "settings st' = settings st \<and> container st' = container st
       \<and> templateHtml st' = templateHtml st \<and> existingNodes st' = existingNodes st
       \<and> console st' = console st \<and> cached_template st' = cached_template st"
proof -
  from process_item_shape [OF assms] obtain ns cs
    where "st' = (snd (item_html S i item st))\<lparr>nodes := ns, children := cs\<rparr>" by blast
  then show ?thesis
    by (simp add: item_html_keeps)
qed

lemma process_items_keeps:
  "process_items P S i items (f, st) = (r, f', st') \<Longrightarrow>
     settings st' = settings st \<and> container st' = container st
       \<and> templateHtml st' = templateHtml st \<and> existingNodes st' = existingNodes st
       \<and> console st' = console st \<and> cached_template st' = cached_template st"
proof (induction items arbitrary: i f st)
  case Nil
  then show ?case by simp
next
  case (Cons x xs)
  obtain r1 f1 st1 where p: "process_item P S i x (f, st) = (r1, f1, st1)"
    by (cases "process_item P S i x (f, st)")
  note k = process_item_keeps [OF p]
  show ?case
  proof (cases r1)
    case None
    with Cons.prems p have "process_items P S (Suc i) xs (f1, st1) = (r, f', st')"
      by (simp del: process_item.simps)
    from Cons.IH [OF this] k show ?thesis by simp
  next
    case (Some e)
    with Cons.prems p have "st' = st1" by (simp del: process_item.simps)
    with k show ?thesis by simp
  qed
qed

lemma process_item_error:
  assumes "process_item P S i item (f, st) = (Some e, f', st')"
  shows "f' = f \<and> st' = snd (item_html S i item st)"
  using assms unfolding process_item_markup
  by (auto split: sum.splits option.splits if_splits)

lemma filter_drop_distinct:
  assumes "distinct xs" and "i < length xs"
  shows "filter (\<lambda>m. m \<noteq> xs ! i) (drop i xs) = drop (Suc i) xs"
proof -
  have d: "drop i xs = xs ! i # drop (Suc i) xs"
    using assms(2) by (simp add: Cons_nth_drop_Suc)
  with assms(1) have "distinct (xs ! i # drop (Suc i) xs)"
    by (metis distinct_drop)
  then have "xs ! i \<notin> set (drop (Suc i) xs)" by simp
  then have "filter (\<lambda>m. m \<noteq> xs ! i) (drop (Suc i) xs) = drop (Suc i) xs"
    by (auto intro: filter_True)
  with d show ?thesis by simp
qed

lemma filter_take_distinct:
  assumes "distinct xs" and "i < length xs"
  shows "filter (\<lambda>m. m \<noteq> xs ! i) (take i xs) @ [xs ! i] = take (Suc i) xs"
proof -
  have "xs ! i \<notin> set (take i xs)"
    using assms by (metis distinct_take id_take_nth_drop not_distinct_conv_prefix)
  then have "filter (\<lambda>m. m \<noteq> xs ! i) (take i xs) = take i xs"
    by (auto intro: filter_True)
  then show ?thesis using assms(2) by (simp add: take_Suc_conv_app_nth)
qed

lemma process_item_reuse:
  assumes "reuseNodes (settings st)" and "i < length (existingNodes st)"
    and "markup S st i item = Inr h"
  shows "\<exists>st1. process_item P S i item (f, st) =
      (None, filter (\<lambda>m. m \<noteq> existingNodes st ! i) f @ [existingNodes st ! i], st1)
    \<and> nodes st1 = (nodes st)[existingNodes st ! i :=
                   (nodes st ! (existingNodes st ! i))\<lparr>innerHTML := h\<rparr>]
    \<and> children st1 = filter (\<lambda>m. m \<noteq> existingNodes st ! i) (children st)"
  using assms unfolding process_item_markup by simp

lemma process_item_ok_reuse:
  assumes "process_item P S i item (f, st) = (None, f', st')"
    and "reuseNodes (settings st)" and "i < length (existingNodes st)"
  shows "\<exists>h. markup S st i item = Inr h
    \<and> f' = filter (\<lambda>m. m \<noteq> existingNodes st ! i) f @ [existingNodes st ! i]
    \<and> nodes st' = (nodes st)[existingNodes st ! i :=
                   (nodes st ! (existingNodes st ! i))\<lparr>innerHTML := h\<rparr>]
    \<and> children st' = filter (\<lambda>m. m \<noteq> existingNodes st ! i) (children st)"
  using assms unfolding process_item_markup
  by (auto split: sum.splits)

lemma process_item_ok_fresh:
  assumes "process_item P S i item (f, st) = (None, f', st')"
    and "\<not> (reuseNodes (settings st) \<and> i < length (existingNodes st))"
  shows "\<exists>h el. markup S st i item = Inr h \<and> P h = Some el
    \<and> f' = f @ [length (nodes st)]
    \<and> nodes st' = nodes st @ [el]
    \<and> children st' = children st"
  using assms item_html_keeps(7) [of S i item st] unfolding process_item_markup
  by (auto split: sum.splits option.splits)

lemma process_items_Cons_None:
  assumes "process_items P S i (x # xs) (f, st) = (None, f', st')"
  obtains f1 st1 where "process_item P S i x (f, st) = (None, f1, st1)"
    and "process_items P S (Suc i) xs (f1, st1) = (None, f', st')"
proof -
  obtain r1 f1 st1 where p: "process_item P S i x (f, st) = (r1, f1, st1)"
    by (cases "process_item P S i x (f, st)")
  with assms have "r1 = None" "process_items P S (Suc i) xs (f1, st1) = (None, f', st')"
    by (cases r1; simp del: process_item.simps)+
  with p that show ?thesis by blast
qed

lemma process_items_reuse_children:
  "process_items P S i items (f, st) = (None, f', st') \<Longrightarrow> reuseNodes (settings st) \<Longrightarrow>
   distinct (existingNodes st) \<Longrightarrow> children st = drop i (existingNodes st) \<Longrightarrow>
   children st' = drop (i + length items) (existingNodes st)"
proof (induction items arbitrary: i f st)
  case Nil
  then show ?case by simp
next
  case (Cons x xs)
  from Cons.prems(1) obtain f1 st1 where p: "process_item P S i x (f, st) = (None, f1, st1)"
    and q: "process_items P S (Suc i) xs (f1, st1) = (None, f', st')"
    by (rule process_items_Cons_None)
  note k = process_item_keeps [OF p]
  have c: "children st1 = drop (Suc i) (existingNodes st)"
  proof (cases "i < length (existingNodes st)")
    case True
    from process_item_ok_reuse [OF p Cons.prems(2) True] Cons.prems(3,4) True
    show ?thesis by (auto simp: filter_drop_distinct)
  next
    case False
    with process_item_ok_fresh [OF p] Cons.prems(4) show ?thesis by auto
  qed
  from Cons.IH [OF q] k Cons.prems(2,3) c show ?case by simp
qed

lemma process_items_reuse_fragment:
  "process_items P S i items (f, st) = (None, f', st') \<Longrightarrow> reuseNodes (settings st) \<Longrightarrow>
   distinct (existingNodes st) \<Longrightarrow> i + length items \<le> length (existingNodes st) \<Longrightarrow>
   f = take i (existingNodes st) \<Longrightarrow> f' = take (i + length items) (existingNodes st)"
proof (induction items arbitrary: i f st)
  case Nil
  then show ?case by auto
next
  case (Cons x xs)
  from Cons.prems(1) obtain f1 st1 where p: "process_item P S i x (f, st) = (None, f1, st1)"
    and q: "process_items P S (Suc i) xs (f1, st1) = (None, f', st')"
    by (rule process_items_Cons_None)
  note k = process_item_keeps [OF p]
  have i: "i < length (existingNodes st)" using Cons.prems(4) by simp
  from process_item_ok_reuse [OF p Cons.prems(2) i] Cons.prems(3,5) i
  have "f1 = take (Suc i) (existingNodes st)" by (auto simp: filter_take_distinct)
  with Cons.IH [OF q] k Cons.prems(2,3,4) show ?case by simp
qed

lemma process_items_fresh:
  "process_items P S i items (f, st) = (r, f', st') \<Longrightarrow> \<not> reuseNodes (settings st) \<Longrightarrow>
   children st' = children st \<and> take (length (nodes st)) (nodes st') = nodes st"
proof (induction items arbitrary: i f st)
  case Nil
  then show ?case by simp
next
  case (Cons x xs)
  obtain r1 f1 st1 where p: "process_item P S i x (f, st) = (r1, f1, st1)"
    by (cases "process_item P S i x (f, st)")
  note k = process_item_keeps [OF p]
  show ?case
  proof (cases r1)
    case (Some e)
    with Cons.prems(1) p have "st' = st1" by (simp del: process_item.simps)
    with process_item_error [of P S i x f st e f1 st1] p Some
      item_html_keeps(6,7) [of S i x st]
    show ?thesis by simp
  next
    case None
    with Cons.prems(1) p have q: "process_items P S (Suc i) xs (f1, st1) = (r, f', st')"
      by (simp del: process_item.simps)
    from process_item_ok_fresh [of P S i x f st f1 st1] p None Cons.prems(2)
    obtain el where s: "nodes st1 = nodes st @ [el]" "children st1 = children st" by auto
    from Cons.IH [OF q] k Cons.prems(2)
    have "children st' = children st1" "take (length (nodes st1)) (nodes st') = nodes st1"
      by simp_all
    have "take (length (nodes st)) (nodes st') =
        take (length (nodes st)) (take (length (nodes st1)) (nodes st'))"
      using s by (simp add: min_def)
    also have "\<dots> = take (length (nodes st)) (nodes st1)"
      using \<open>take (length (nodes st1)) (nodes st') = nodes st1\<close> by simp
    also have "\<dots> = nodes st" using s by simp
    finally show ?thesis using \<open>children st' = children st1\<close> s by simp
  qed
qed


lemma process_items_untouched:
  "process_items P S i items (f, st) = (r, f', st') \<Longrightarrow> n < length (nodes st) \<Longrightarrow>
   (reuseNodes (settings st) \<Longrightarrow> n \<notin> set (take (length items) (drop i (existingNodes st)))) \<Longrightarrow>
   nodes st' ! n = nodes st ! n \<and> length (nodes st) \<le> length (nodes st')"
proof (induction items arbitrary: i f st)
  case Nil
  then show ?case by auto
next
  case (Cons x xs)
  obtain r1 f1 st1 where p: "process_item P S i x (f, st) = (r1, f1, st1)"
    by (cases "process_item P S i x (f, st)")
  note k = process_item_keeps [OF p]
  show ?case
  proof (cases r1)
    case (Some e)
    with Cons.prems(1) p have "st' = st1" by (simp del: process_item.simps)
    with process_item_error [of P S i x f st e f1 st1] p Some item_html_keeps(6) [of S i x st]
    show ?thesis by simp
  next
    case None
    with Cons.prems(1) p have q: "process_items P S (Suc i) xs (f1, st1) = (r, f', st')"
      by (simp del: process_item.simps)
    have one: "nodes st1 ! n = nodes st ! n \<and> length (nodes st) \<le> length (nodes st1)"
    proof (cases "reuseNodes (settings st) \<and> i < length (existingNodes st)")
      case True
      then have "existingNodes st ! i \<in> set (take (length (x # xs)) (drop i (existingNodes st)))"
        by (simp add: Cons_nth_drop_Suc [symmetric])
      with Cons.prems(3) True have "n \<noteq> existingNodes st ! i" by auto
      with process_item_ok_reuse [of P S i x f st f1 st1] p None True
      show ?thesis by auto
    next
      case False
      with process_item_ok_fresh [of P S i x f st f1 st1] p None Cons.prems(2)
      show ?thesis by (auto simp: nth_append)
    qed
    have out: "n \<notin> set (take (length xs) (drop (Suc i) (existingNodes st1)))"
      if "reuseNodes (settings st1)"
    proof -
      from that k have re: "reuseNodes (settings st)" by simp
      have "set (take (length xs) (drop (Suc i) (existingNodes st)))
          \<subseteq> set (take (length (x # xs)) (drop i (existingNodes st)))"
      proof (cases "i < length (existingNodes st)")
        case True
        then show ?thesis by (auto simp: Cons_nth_drop_Suc [symmetric])
      next
        case False
        then show ?thesis by simp
      qed
      with Cons.prems(3) [OF re] k show ?thesis by auto
    qed
    from one Cons.prems(2) have "n < length (nodes st1)" by simp
    from Cons.IH [OF q this out] one show ?thesis by simp
  qed
qed

lemma process_items_reuse_ok:
  "reuseNodes (settings st) \<Longrightarrow> i + length items \<le> length (existingNodes st) \<Longrightarrow>
   (\<forall>j < length items. \<exists>h. markup S st (i + j) (items ! j) = Inr h) \<Longrightarrow>
   fst (process_items P S i items (f, st)) = None"
proof (induction items arbitrary: i f st)
  case Nil
  show ?case by simp
next
  case (Cons x xs)
  have i: "i < length (existingNodes st)" using Cons.prems(2) by simp
  from Cons.prems(3) obtain h where h: "markup S st i x = Inr h" by fastforce
  from process_item_reuse [OF Cons.prems(1) i h, of P f]
  obtain f1 st1 where p: "process_item P S i x (f, st) = (None, f1, st1)" by blast
  note k = process_item_keeps [OF p]
  have m: "markup S st1 = markup S st"
    using k by (intro ext markup_cong) simp_all
  have "\<forall>j < length xs. \<exists>h. markup S st1 (Suc i + j) (xs ! j) = Inr h"
  proof (intro allI impI)
    fix j assume "j < length xs"
    then have "Suc j < length (x # xs)" by simp
    with Cons.prems(3) have "\<exists>h. markup S st (i + Suc j) ((x # xs) ! Suc j) = Inr h" by blast
    then show "\<exists>h. markup S st1 (Suc i + j) (xs ! j) = Inr h" by (simp add: m)
  qed
  from Cons.IH [of st1 "Suc i", OF _ _ this] k Cons.prems(1,2) p show ?case
    by (simp del: process_item.simps)
qed

lemma nth_notin_drop:
  assumes "distinct xs" and "i < length xs"
  shows "xs ! i \<notin> set (drop (Suc i) xs)"
proof -
  have "drop i xs = xs ! i # drop (Suc i) xs"
    using assms(2) by (simp add: Cons_nth_drop_Suc)
  with assms(1) have "distinct (xs ! i # drop (Suc i) xs)"
    by (metis distinct_drop)
  then show ?thesis by simp
qed

lemma process_items_reuse_nodes:
  "process_items P S i items (f, st) = (None, f', st') \<Longrightarrow> reuseNodes (settings st) \<Longrightarrow>
   distinct (existingNodes st) \<Longrightarrow> i + length items \<le> length (existingNodes st) \<Longrightarrow>
   (\<forall>n \<in> set (existingNodes st). n < length (nodes st)) \<Longrightarrow> j < length items \<Longrightarrow>
   markup S st (i + j) (items ! j) = Inr (innerHTML (nodes st' ! (existingNodes st ! (i + j))))
   \<and> nodes st' ! (existingNodes st ! (i + j)) =
       (nodes st ! (existingNodes st ! (i + j)))
         \<lparr>innerHTML := innerHTML (nodes st' ! (existingNodes st ! (i + j)))\<rparr>"
proof (induction items arbitrary: i f st j)
  case Nil
  then show ?case by simp
next
  case (Cons x xs)
  let ?old = "existingNodes st"
  from Cons.prems(1) obtain f1 st1 where p: "process_item P S i x (f, st) = (None, f1, st1)"
    and q: "process_items P S (Suc i) xs (f1, st1) = (None, f', st')"
    by (rule process_items_Cons_None)
  note k = process_item_keeps [OF p]
  have i: "i < length ?old" using Cons.prems(4) by simp
  from process_item_ok_reuse [OF p Cons.prems(2) i]
  obtain h where h: "markup S st i x = Inr h"
    and n1: "nodes st1 = (nodes st)[?old ! i := (nodes st ! (?old ! i))\<lparr>innerHTML := h\<rparr>]"
    by blast
  have len: "length (nodes st1) = length (nodes st)" using n1 by simp
  have wf: "?old ! i < length (nodes st)" using Cons.prems(5) i by simp
  show ?case
  proof (cases j)
    case 0
    have a: "?old ! i < length (nodes st1)" using wf len by simp
    have b: "?old ! i \<notin> set (take (length xs) (drop (Suc i) (existingNodes st1)))"
      using nth_notin_drop [OF Cons.prems(3) i] k by (auto dest: in_set_takeD)
    from process_items_untouched [OF q a b]
    have "nodes st' ! (?old ! i) = nodes st1 ! (?old ! i)" by simp
    also have "\<dots> = (nodes st ! (?old ! i))\<lparr>innerHTML := h\<rparr>"
      using n1 wf by simp
    finally show ?thesis using 0 h by simp
  next
    case (Suc j')
    have j': "j' < length xs" using Cons.prems(6) Suc by simp
    have m: "markup S st1 = markup S st"
      using k by (intro ext markup_cong) simp_all
    have wf1: "\<forall>n \<in> set (existingNodes st1). n < length (nodes st1)"
      using Cons.prems(5) k len by simp
    have ne: "?old ! (i + Suc j') \<noteq> ?old ! i"
      using Cons.prems(3,4) j' i by (simp add: nth_eq_iff_index_eq)
    from Cons.IH [OF q _ _ _ wf1 j'] k Cons.prems(2,3,4)
    have "markup S st1 (Suc i + j') (xs ! j') =
            Inr (innerHTML (nodes st' ! (?old ! (Suc i + j'))))
        \<and> nodes st' ! (?old ! (Suc i + j')) =
            (nodes st1 ! (?old ! (Suc i + j')))
              \<lparr>innerHTML := innerHTML (nodes st' ! (?old ! (Suc i + j')))\<rparr>"
      by simp
    moreover have "nodes st1 ! (?old ! (Suc i + j')) = nodes st ! (?old ! (Suc i + j'))"
      using n1 ne by simp
    ultimately show ?thesis using Suc m by simp
  qed
qed

lemma cached_template_existingNodes [simp]:
  "cached_template (st\<lparr>existingNodes := ns\<rparr>) = cached_template st"
  by (simp add: cached_template_def split: option.splits)

text \<open>
  A batch without an error appends one node per item to the fragment, in the order of
  the items: for the item at position \<open>i + j\<close> the existing node at that position,
  with the markup of the item as its inner markup, or a new node that the parser made
  of the markup of the item.
\<close>

lemma process_items_positions:
  "process_items P S i items (f, st) = (None, f', st') \<Longrightarrow>
   (reuseNodes (settings st) \<Longrightarrow>
      distinct (existingNodes st) \<and> (\<forall>n \<in> set (existingNodes st). n < length (nodes st))
      \<and> set f \<inter> set (drop i (existingNodes st)) = {}) \<Longrightarrow>
   \<exists>g. f' = f @ g \<and> length g = length items \<and> length (nodes st) \<le> length (nodes st')
     \<and> (\<forall>j < length items. \<exists>h. markup S st (i + j) (items ! j) = Inr h
          \<and> (if reuseNodes (settings st) \<and> i + j < length (existingNodes st)
              then g ! j = existingNodes st ! (i + j)
                 \<and> nodes st' ! (g ! j) = (nodes st ! (g ! j))\<lparr>innerHTML := h\<rparr>
              else length (nodes st) \<le> g ! j \<and> g ! j < length (nodes st')
                 \<and> P h = Some (nodes st' ! (g ! j))))"
proof (induction items arbitrary: i f st)
  case Nil
  then show ?case by auto
next
  case (Cons x xs)
  let ?old = "existingNodes st"
  let ?re = "reuseNodes (settings st)"
  from Cons.prems(1) obtain f1 st1 where p: "process_item P S i x (f, st) = (None, f1, st1)"
    and q: "process_items P S (Suc i) xs (f1, st1) = (None, f', st')"
    by (rule process_items_Cons_None)
  note k = process_item_keeps [OF p]
  have m: "markup S st1 = markup S st"
    using k by (intro ext markup_cong) simp_all
  show ?case
  proof (cases "?re \<and> i < length ?old")
    case True
    then have re: ?re and i: "i < length ?old" by simp_all
    from Cons.prems(2) [OF re] have dist: "distinct ?old"
      and wf: "\<forall>n \<in> set ?old. n < length (nodes st)"
      and disj: "set f \<inter> set (drop i ?old) = {}" by simp_all
    from process_item_ok_reuse [OF p re i]
    obtain h0 where h0: "markup S st i x = Inr h0"
      and f1: "f1 = filter (\<lambda>m. m \<noteq> ?old ! i) f @ [?old ! i]"
      and n1: "nodes st1 = (nodes st)[?old ! i := (nodes st ! (?old ! i))\<lparr>innerHTML := h0\<rparr>]"
      by blast
    have "?old ! i \<in> set (drop i ?old)" using i by (simp add: Cons_nth_drop_Suc [symmetric])
    with disj have "?old ! i \<notin> set f" by auto
    then have "filter (\<lambda>m. m \<noteq> ?old ! i) f = f" by (auto intro: filter_True)
    with f1 have f1': "f1 = f @ [?old ! i]" by simp
    have len1: "length (nodes st1) = length (nodes st)" using n1 by simp
    have oi: "?old ! i < length (nodes st)" using wf i by simp
    have notin: "?old ! i \<notin> set (drop (Suc i) ?old)" by (rule nth_notin_drop [OF dist i])
    have pre1: "distinct (existingNodes st1) \<and> (\<forall>n \<in> set (existingNodes st1). n < length (nodes st1))
        \<and> set f1 \<inter> set (drop (Suc i) (existingNodes st1)) = {}"
    proof -
      have "set (drop (Suc i) ?old) \<subseteq> set (drop i ?old)"
        by (metis drop_Suc set_drop_subset tl_drop drop_drop plus_1_eq_Suc set_drop_subset_set_drop le_add2 Suc_eq_plus1 le_refl)
      with disj notin have "set f1 \<inter> set (drop (Suc i) ?old) = {}"
        unfolding f1' by auto
      with dist wf k len1 show ?thesis by simp
    qed
    from Cons.IH [OF q pre1]
    obtain g' where g': "f' = f1 @ g'" "length g' = length xs"
      "length (nodes st1) \<le> length (nodes st')"
      and each: "\<forall>j < length xs. \<exists>h. markup S st1 (Suc i + j) (xs ! j) = Inr h
          \<and> (if reuseNodes (settings st1) \<and> Suc i + j < length (existingNodes st1)
              then g' ! j = existingNodes st1 ! (Suc i + j)
                 \<and> nodes st' ! (g' ! j) = (nodes st1 ! (g' ! j))\<lparr>innerHTML := h\<rparr>
              else length (nodes st1) \<le> g' ! j \<and> g' ! j < length (nodes st')
                 \<and> P h = Some (nodes st' ! (g' ! j)))"
      by blast
    have a1: "?old ! i < length (nodes st1)" using oi len1 by simp
    have b1: "?old ! i \<notin> set (take (length xs) (drop (Suc i) (existingNodes st1)))"
      using notin k by (auto dest: in_set_takeD)
    from process_items_untouched [OF q a1 b1]
    have keep0: "nodes st' ! (?old ! i) = nodes st1 ! (?old ! i)" by simp
    have first: "nodes st' ! (?old ! i) = (nodes st ! (?old ! i))\<lparr>innerHTML := h0\<rparr>"
      using keep0 n1 oi by simp
    let ?g = "?old ! i # g'"
    have "\<exists>h. markup S st (i + j) ((x # xs) ! j) = Inr h
          \<and> (if ?re \<and> i + j < length ?old
              then ?g ! j = ?old ! (i + j)
                 \<and> nodes st' ! (?g ! j) = (nodes st ! (?g ! j))\<lparr>innerHTML := h\<rparr>
              else length (nodes st) \<le> ?g ! j \<and> ?g ! j < length (nodes st')
                 \<and> P h = Some (nodes st' ! (?g ! j)))"
      if j: "j < length (x # xs)" for j
    proof (cases j)
      case 0
      with h0 first True show ?thesis by simp
    next
      case (Suc j')
      with j have j': "j' < length xs" by simp
      from each j' obtain h where h: "markup S st1 (Suc i + j') (xs ! j') = Inr h"
        and c: "if reuseNodes (settings st1) \<and> Suc i + j' < length (existingNodes st1)
              then g' ! j' = existingNodes st1 ! (Suc i + j')
                 \<and> nodes st' ! (g' ! j') = (nodes st1 ! (g' ! j'))\<lparr>innerHTML := h\<rparr>
              else length (nodes st1) \<le> g' ! j' \<and> g' ! j' < length (nodes st')
                 \<and> P h = Some (nodes st' ! (g' ! j'))"
        by blast
      have same: "nodes st1 ! (?old ! (Suc i + j')) = nodes st ! (?old ! (Suc i + j'))"
        if "Suc i + j' < length ?old"
      proof -
        have "?old ! (Suc i + j') \<noteq> ?old ! i"
          using dist that i by (simp add: nth_eq_iff_index_eq)
        then show ?thesis using n1 by simp
      qed
      from h c same k len1 Suc show ?thesis
        by (auto simp: m)
    qed
    with g' f1' len1 show ?thesis
      by (intro exI [of _ ?g]) simp
  next
    case False
    from process_item_ok_fresh [OF p False]
    obtain h0 el where h0: "markup S st i x = Inr h0" and el: "P h0 = Some el"
      and f1: "f1 = f @ [length (nodes st)]"
      and n1: "nodes st1 = nodes st @ [el]"
      by blast
    let ?L = "length (nodes st)"
    have later: "\<not> (?re \<and> Suc i + j < length ?old)" for j
      using False by auto
    have pre1: "distinct (existingNodes st1) \<and> (\<forall>n \<in> set (existingNodes st1). n < length (nodes st1))
        \<and> set f1 \<inter> set (drop (Suc i) (existingNodes st1)) = {}"
      if re1: "reuseNodes (settings st1)"
    proof -
      from re1 k have re: ?re by simp
      from Cons.prems(2) [OF re] have dist: "distinct ?old"
        and wf: "\<forall>n \<in> set ?old. n < length (nodes st)" by simp_all
      from re False have "length ?old \<le> i" by simp
      then have "drop (Suc i) ?old = []" by simp
      with dist wf k n1 show ?thesis by auto
    qed
    from Cons.IH [OF q pre1]
    obtain g' where g': "f' = f1 @ g'" "length g' = length xs"
      "length (nodes st1) \<le> length (nodes st')"
      and each: "\<forall>j < length xs. \<exists>h. markup S st1 (Suc i + j) (xs ! j) = Inr h
          \<and> (if reuseNodes (settings st1) \<and> Suc i + j < length (existingNodes st1)
              then g' ! j = existingNodes st1 ! (Suc i + j)
                 \<and> nodes st' ! (g' ! j) = (nodes st1 ! (g' ! j))\<lparr>innerHTML := h\<rparr>
              else length (nodes st1) \<le> g' ! j \<and> g' ! j < length (nodes st')
                 \<and> P h = Some (nodes st' ! (g' ! j)))"
      by blast
    have a1: "?L < length (nodes st1)" using n1 by simp
    have b1: "?L \<notin> set (take (length xs) (drop (Suc i) (existingNodes st1)))"
      if re1: "reuseNodes (settings st1)"
    proof -
      from re1 k have re: ?re by simp
      from re False have "length ?old \<le> i" by simp
      then show ?thesis using k by simp
    qed
    from process_items_untouched [OF q a1 b1]
    have keep0: "nodes st' ! ?L = nodes st1 ! ?L" by simp
    have first: "nodes st' ! ?L = el" using keep0 n1 by simp
    let ?g = "?L # g'"
    have "\<exists>h. markup S st (i + j) ((x # xs) ! j) = Inr h
          \<and> (if ?re \<and> i + j < length ?old
              then ?g ! j = ?old ! (i + j)
                 \<and> nodes st' ! (?g ! j) = (nodes st ! (?g ! j))\<lparr>innerHTML := h\<rparr>
              else length (nodes st) \<le> ?g ! j \<and> ?g ! j < length (nodes st')
                 \<and> P h = Some (nodes st' ! (?g ! j)))"
      if j: "j < length (x # xs)" for j
    proof (cases j)
      case 0
      with h0 el first False g'(3) a1 show ?thesis by auto
    next
      case (Suc j')
      with j have j': "j' < length xs" by simp
      from each j' obtain h where h: "markup S st1 (Suc i + j') (xs ! j') = Inr h"
        and c: "if reuseNodes (settings st1) \<and> Suc i + j' < length (existingNodes st1)
              then g' ! j' = existingNodes st1 ! (Suc i + j')
                 \<and> nodes st' ! (g' ! j') = (nodes st1 ! (g' ! j'))\<lparr>innerHTML := h\<rparr>
              else length (nodes st1) \<le> g' ! j' \<and> g' ! j' < length (nodes st')
                 \<and> P h = Some (nodes st' ! (g' ! j'))"
        by blast
      from h c k later [of j'] n1 Suc show ?thesis
        by (auto simp: m)
    qed
    with g' f1 n1 show ?thesis
      by (intro exI [of _ ?g]) simp
  qed
qed

section \<open>Batches and animation frames\<close>

lemma process_items_append:
  "process_items P S i (xs @ ys) fs =
     (case process_items P S i xs fs of
        (Some e, fs') \<Rightarrow> (Some e, fs')
      | (None, fs') \<Rightarrow> process_items P S (i + length xs) ys fs')"
  by (induction xs arbitrary: i fs) (auto split: prod.splits option.splits)

lemma commit_cases:
  "commit n fs = (Finished, [], snd (snd (commit n fs))) \<or>
   (\<exists>frag. commit n fs = (Threw TypeError, frag, snd (snd (commit n fs))))"
  by (cases fs) (simp add: Let_def)

lemma batch_split:
  assumes "k \<le> length xs"
  shows "drop k xs = take (min (k + b) (length xs) - k) (drop k xs) @ drop (min (k + b) (length xs)) xs"
proof -
  have "drop (min (k + b) (length xs) - k) (drop k xs) = drop (min (k + b) (length xs)) xs"
    using assms by (simp add: min_def)
  then show ?thesis
    by (metis append_take_drop_id)
qed

lemma processBatch_step:
  assumes "k \<le> length xs"
  shows "case processBatch P S (DArray xs) b k fs of
           (Threw e, fs') \<Rightarrow> snd fs' = pass_from P S xs k fs
         | (Finished, fs') \<Rightarrow> snd fs' = pass_from P S xs k fs
         | (Scheduled k', fs') \<Rightarrow>
             k' = k + b \<and> k' < length xs \<and> pass_from P S xs k' fs' = pass_from P S xs k fs"
proof -
  define e where "e = min (k + b) (length xs)"
  define items where "items = take (e - k) (drop k xs)"
  have split: "drop k xs = items @ drop e xs"
    unfolding items_def e_def by (rule batch_split [OF assms])
  have len: "k + length items = e"
    using assms unfolding items_def e_def by (auto simp: min_def)
  obtain r fs1 where r: "process_items P S k items fs = (r, fs1)"
    by (cases "process_items P S k items fs")
  have pb: "processBatch P S (DArray xs) b k fs =
      (case r of
         Some err \<Rightarrow> (Threw err, fs1)
       | None \<Rightarrow> if e < length xs then (Scheduled e, fs1) else commit (length xs) fs1)"
    using r unfolding items_def e_def by (simp add: Let_def split: option.splits)
  have pf: "pass_from P S xs k fs =
      (case r of
         Some err \<Rightarrow> snd fs1
       | None \<Rightarrow> pass_from P S xs e fs1)"
    unfolding pass_from_def split process_items_append r
    by (simp add: len split: option.splits prod.splits)
  show ?thesis
  proof (cases r)
    case (Some err)
    with pb pf show ?thesis by simp
  next
    case None
    show ?thesis
    proof (cases "e < length xs")
      case True
      then have "e = k + b" unfolding e_def by (simp add: min_def split: if_splits)
      with True None pb pf show ?thesis by simp
    next
      case False
      then have "e = length xs" unfolding e_def using assms by (simp add: min_def split: if_splits)
      then have "pass_from P S xs e fs1 = snd (snd (commit (length xs) fs1))"
        by (simp add: pass_from_def)
      with False None pb pf commit_cases [of "length xs" fs1] show ?thesis
        by auto
    qed
  qed
qed


lemma processBatch_no_error:
  assumes "k \<le> length xs" and "fst (process_items P S k (drop k xs) fs) = None"
  shows "case processBatch P S (DArray xs) b k fs of
           (Scheduled k', fs') \<Rightarrow>
             k' = k + b \<and> k' < length xs \<and> fst (process_items P S k' (drop k' xs) fs') = None
         | (Threw e, fs') \<Rightarrow> length xs \<le> k + b
         | (Finished, fs') \<Rightarrow> length xs \<le> k + b"
proof -
  define e where "e = min (k + b) (length xs)"
  define items where "items = take (e - k) (drop k xs)"
  have split: "drop k xs = items @ drop e xs"
    unfolding items_def e_def by (rule batch_split [OF assms(1)])
  have len: "k + length items = e"
    using assms(1) unfolding items_def e_def by (auto simp: min_def)
  obtain r fs1 where r: "process_items P S k items fs = (r, fs1)"
    by (cases "process_items P S k items fs")
  from assms(2) have none: "r = None" and rest: "fst (process_items P S e (drop e xs) fs1) = None"
    unfolding split process_items_append r
    by (auto simp: len split: option.splits)
  have pb: "processBatch P S (DArray xs) b k fs =
      (if e < length xs then (Scheduled e, fs1) else commit (length xs) fs1)"
    using r none unfolding items_def e_def by (simp add: Let_def)
  show ?thesis
  proof (cases "e < length xs")
    case True
    then have "e = k + b" unfolding e_def by (simp add: min_def split: if_splits)
    with True pb rest show ?thesis by simp
  next
    case False
    then have "length xs \<le> k + b" unfolding e_def by (simp add: min_def split: if_splits)
    with False pb commit_cases [of "length xs" fs1] show ?thesis by auto
  qed
qed

lemma frames_count_step:
  assumes "1 \<le> (b::nat)" and "k + b < n"
  shows "(n - k + b - 1) div b = Suc ((n - (k + b) + b - 1) div b)"
proof -
  have e: "n - k + b - 1 = (n - (k + b) + b - 1) + b" using assms by simp
  have "b \<noteq> 0" using assms by simp
  then have h: "(x + b) div b = Suc (x div b)" for x
    by (simp add: div_add_self2)
  show ?thesis by (simp only: e h)
qed

lemma frames_count_pos:
  assumes "1 \<le> (b::nat)" and "k < n"
  shows "0 < (n - k + b - 1) div b"
proof -
  have "b \<le> n - k + b - 1" using assms by simp
  then show ?thesis using assms
    by (simp add: div_greater_zero_iff)
qed

lemma run_frames_completes:
  assumes b: "1 \<le> b"
  shows "k < length xs \<Longrightarrow> (length xs - k + b - 1) div b \<le> n \<Longrightarrow>
     \<exists>s. run_frames P S n (Pending \<lparr>s_data = DArray xs, s_batchSize = b, s_fragment = f\<rparr> k, st) =
            Some (s, pass_from P S xs k (f, st)) \<and> (s = Complete \<or> (\<exists>e. s = Escaped e))"
proof (induction n arbitrary: k f st)
  case 0
  with frames_count_pos [OF b, of k "length xs"] show ?case by simp
next
  case (Suc m)
  have kle: "k \<le> length xs" using Suc.prems(1) by simp
  obtain out f1 st1 where pb: "processBatch P S (DArray xs) b k (f, st) = (out, f1, st1)"
    by (cases "processBatch P S (DArray xs) b k (f, st)")
  note step = processBatch_step [OF kle, where P = P and S = S and b = b and fs = "(f, st)", unfolded pb]
  show ?case
  proof (cases out)
    case (Threw e)
    with pb step show ?thesis by (simp add: frame_def)
  next
    case Finished
    with pb step show ?thesis by (simp add: frame_def)
  next
    case (Scheduled k')
    with step have k': "k' = k + b" "k' < length xs"
      and pf: "pass_from P S xs k' (f1, st1) = pass_from P S xs k (f, st)" by auto
    have "(length xs - k' + b - 1) div b \<le> m"
      using Suc.prems(2) frames_count_step [OF b, of k "length xs"] k' by simp
    from Suc.IH [OF k'(2) this, of f1 st1] pf Scheduled pb show ?thesis
      by (simp add: frame_def)
  qed
qed

lemma run_frames_pending:
  assumes b: "1 \<le> b"
  shows "k < length xs \<Longrightarrow> fst (process_items P S k (drop k xs) (f, st)) = None \<Longrightarrow>
     n < (length xs - k + b - 1) div b \<Longrightarrow>
     run_frames P S n (Pending \<lparr>s_data = DArray xs, s_batchSize = b, s_fragment = f\<rparr> k, st) = None"
proof (induction n arbitrary: k f st)
  case 0
  show ?case by simp
next
  case (Suc m)
  have kle: "k \<le> length xs" using Suc.prems(1) by simp
  obtain out f1 st1 where pb: "processBatch P S (DArray xs) b k (f, st) = (out, f1, st1)"
    by (cases "processBatch P S (DArray xs) b k (f, st)")
  note step = processBatch_no_error [OF kle Suc.prems(2), where b = b, unfolded pb]
  have one: "(length xs - k + b - 1) div b = 1" if "length xs \<le> k + b"
  proof -
    have "b \<le> length xs - k + b - 1" "length xs - k + b - 1 < 2 * b"
      using that Suc.prems(1) b by simp_all
    then show ?thesis
      by (metis One_nat_def Suc_1 b div_nat_eqI le_eq_less_or_eq mult.commute mult_2_right nat_mult_1_right plus_1_eq_Suc)
  qed
  show ?case
  proof (cases out)
    case (Threw e)
    with step one Suc.prems(3) show ?thesis by simp
  next
    case Finished
    with step one Suc.prems(3) show ?thesis by simp
  next
    case (Scheduled k')
    with step have k': "k' = k + b" "k' < length xs"
      and ne: "fst (process_items P S k' (drop k' xs) (f1, st1)) = None" by auto
    have "m < (length xs - k' + b - 1) div b"
      using Suc.prems(3) frames_count_step [OF b, of k "length xs"] k' by simp
    from Suc.IH [OF k'(2) ne this] Scheduled pb show ?thesis
      by (simp add: frame_def)
  qed
qed

lemma item_html_batchSize:
  "item_html S i item (st\<lparr>settings := (settings st)\<lparr>batchSize := b\<rparr>\<rparr>) =
     (case item_html S i item st of
        (r, st') \<Rightarrow> (r, st'\<lparr>settings := (settings st')\<lparr>batchSize := b\<rparr>\<rparr>))"
  by (simp add: item_html_def cached_template_def Let_def split: option.splits sum.splits)

lemma process_item_batchSize:
  "process_item P S i item (f, st\<lparr>settings := (settings st)\<lparr>batchSize := b\<rparr>\<rparr>) =
     (case process_item P S i item (f, st) of
        (r, f', st') \<Rightarrow> (r, f', st'\<lparr>settings := (settings st')\<lparr>batchSize := b\<rparr>\<rparr>))"
proof -
  obtain r st1 where p: "item_html S i item st = (r, st1)"
    by (cases "item_html S i item st")
  then have q: "item_html S i item (st\<lparr>settings := (settings st)\<lparr>batchSize := b\<rparr>\<rparr>) =
      (r, st1\<lparr>settings := (settings st1)\<lparr>batchSize := b\<rparr>\<rparr>)"
    by (simp add: item_html_batchSize)
  show ?thesis
    by (simp add: p q Let_def split: sum.splits option.splits)
qed

lemma process_items_batchSize:
  "process_items P S i xs (f, st\<lparr>settings := (settings st)\<lparr>batchSize := b\<rparr>\<rparr>) =
     (case process_items P S i xs (f, st) of
        (r, f', st') \<Rightarrow> (r, f', st'\<lparr>settings := (settings st')\<lparr>batchSize := b\<rparr>\<rparr>))"
proof (induction xs arbitrary: i f st)
  case Nil
  show ?case by simp
next
  case (Cons x xs)
  obtain r f1 st1 where p: "process_item P S i x (f, st) = (r, f1, st1)"
    by (cases "process_item P S i x (f, st)")
  show ?case
    by (cases r) (simp_all add: process_item_batchSize p Cons.IH del: process_item.simps)
qed

lemma one_pass_batchSize:
  "nodes (one_pass P S xs (st\<lparr>settings := (settings st)\<lparr>batchSize := b\<rparr>\<rparr>)) = nodes (one_pass P S xs st)
   \<and> children (one_pass P S xs (st\<lparr>settings := (settings st)\<lparr>batchSize := b\<rparr>\<rparr>)) = children (one_pass P S xs st)"
proof -
  have c: "capture (st\<lparr>settings := (settings st)\<lparr>batchSize := b\<rparr>\<rparr>) =
      (case capture st of Inl e \<Rightarrow> Inl e
       | Inr st1 \<Rightarrow> Inr (st1\<lparr>settings := (settings st1)\<lparr>batchSize := b\<rparr>\<rparr>))"
    by (simp add: capture_def)
  show ?thesis
  proof (cases "capture st")
    case (Inl e)
    with c show ?thesis by (simp add: one_pass_def)
  next
    case (Inr st1)
    obtain r f2 st2 where p: "process_items P S 0 xs ([], st1) = (r, f2, st2)"
      by (cases "process_items P S 0 xs ([], st1)")
    from c Inr p show ?thesis
      by (cases r) (simp_all add: one_pass_def pass_from_def process_items_batchSize Let_def)
  qed
qed

lemma frames_from_first:
  assumes "1 \<le> (b::nat)" "b < n"
  shows "(n - b + b - 1) div b = frames_needed n b"
  using assms by (simp add: frames_needed_def)

lemma render_completes:
  assumes b: "1 \<le> batchSize (settings st)"
    and n: "frames_needed (length xs) (batchSize (settings st)) \<le> n"
  shows "\<exists>s st'. run_frames P S n (render P S (DArray xs) st) = Some (s, st')
           \<and> nodes st' = nodes (one_pass P S xs st)
           \<and> children st' = children (one_pass P S xs st)
           \<and> (s = Complete \<or> (\<exists>e. s = Escaped e))"
proof (cases "templateHtml st = []")
  case True
  then show ?thesis by (simp add: render_def one_pass_def)
next
  case False
  show ?thesis
  proof (cases "capture st")
    case (Inl e)
    with False show ?thesis by (simp add: render_def one_pass_def log_error_def)
  next
    case (Inr st1)
    define bsz where "bsz = batchSize (settings st)"
    obtain out f2 st2 where pb: "processBatch P S (DArray xs) bsz 0 ([], st1) = (out, f2, st2)"
      by (cases "processBatch P S (DArray xs) bsz 0 ([], st1)")
    have op: "one_pass P S xs st = pass_from P S xs 0 ([], st1)"
      using False Inr by (simp add: one_pass_def)
    have "0 \<le> length xs" by simp
    note step = processBatch_step [OF this, where P = P and S = S and b = bsz and fs = "([], st1)",
        unfolded pb]
    show ?thesis
    proof (cases out)
      case (Threw e)
      with pb step op False Inr show ?thesis
        by (simp add: render_def bsz_def [symmetric] log_error_def)
    next
      case Finished
      with pb step op False Inr show ?thesis
        by (simp add: render_def bsz_def [symmetric])
    next
      case (Scheduled k)
      with step have k: "k = bsz" "k < length xs"
        and pf: "pass_from P S xs k (f2, st2) = pass_from P S xs 0 ([], st1)" by auto
      have "(length xs - k + bsz - 1) div bsz \<le> n"
        using n k b frames_from_first [of bsz "length xs"] by (simp add: bsz_def)
      from run_frames_completes [OF _ k(2) this, of P S f2 st2] b
      obtain s where "run_frames P S n
          (Pending \<lparr>s_data = DArray xs, s_batchSize = bsz, s_fragment = f2\<rparr> k, st2) =
          Some (s, pass_from P S xs k (f2, st2))" "s = Complete \<or> (\<exists>e. s = Escaped e)"
        by (auto simp: bsz_def)
      with Scheduled pb pf op False Inr show ?thesis
        by (simp add: render_def bsz_def [symmetric])
    qed
  qed
qed

text \<open>
  Claim C1: for every array of items and every batch size of at least 1, the render,
  run to its end through the animation frames, leaves the store of nodes and the
  children of the container that the single pass \<open>one_pass\<close> over the whole array
  leaves, which does not depend on the batch size: the batches only schedule the work.
  The number of frames given as fuel is the number the render needs.
\<close>

theorem batch_size_does_not_change_rendering:
  assumes "1 \<le> b"
  shows "\<exists>r. run_frames P S (frames_needed (length xs) b)
               (render P S (DArray xs) (st\<lparr>settings := (settings st)\<lparr>batchSize := b\<rparr>\<rparr>)) = Some r
           \<and> nodes (snd r) = nodes (one_pass P S xs st)
           \<and> children (snd r) = children (one_pass P S xs st)"
proof -
  define stb where "stb = st\<lparr>settings := (settings st)\<lparr>batchSize := b\<rparr>\<rparr>"
  have bs: "batchSize (settings stb) = b" by (simp add: stb_def)
  from render_completes [of stb xs "frames_needed (length xs) b" P S] assms bs
  obtain s st' where "run_frames P S (frames_needed (length xs) b) (render P S (DArray xs) stb) =
      Some (s, st')" "nodes st' = nodes (one_pass P S xs stb)"
      "children st' = children (one_pass P S xs stb)"
    by auto
  with one_pass_batchSize [of P S xs b st] show ?thesis
    unfolding stb_def by simp
qed

lemma render_needs_frames:
  assumes b: "1 \<le> batchSize (settings st)"
    and t: "templateHtml st \<noteq> []"
    and c: "capture st = Inr st1"
    and ok: "fst (process_items P S 0 xs ([], st1)) = None"
    and n: "n < frames_needed (length xs) (batchSize (settings st))"
  shows "run_frames P S n (render P S (DArray xs) st) = None"
proof -
  define bsz where "bsz = batchSize (settings st)"
  have big: "bsz < length xs"
  proof (rule ccontr)
    assume "\<not> bsz < length xs"
    then have "frames_needed (length xs) bsz = 0"
      using b by (simp add: frames_needed_def bsz_def)
    with n show False by (simp add: bsz_def)
  qed
  obtain out f2 st2 where pb: "processBatch P S (DArray xs) bsz 0 ([], st1) = (out, f2, st2)"
    by (cases "processBatch P S (DArray xs) bsz 0 ([], st1)")
  have "0 \<le> length xs" by simp
  moreover have "fst (process_items P S 0 (drop 0 xs) ([], st1)) = None" using ok by simp
  ultimately have step: "case (out, f2, st2) of
           (Scheduled k', fs') \<Rightarrow>
             k' = 0 + bsz \<and> k' < length xs \<and> fst (process_items P S k' (drop k' xs) fs') = None
         | (Threw e, fs') \<Rightarrow> length xs \<le> 0 + bsz
         | (Finished, fs') \<Rightarrow> length xs \<le> 0 + bsz"
    using processBatch_no_error [where P = P and S = S and b = bsz and fs = "([], st1)" and k = 0 and xs = xs]
    unfolding pb by blast
  show ?thesis
  proof (cases out)
    case (Threw e)
    with step big show ?thesis by simp
  next
    case Finished
    with step big show ?thesis by simp
  next
    case (Scheduled k)
    with step have k: "k = bsz" "k < length xs"
      and ne: "fst (process_items P S k (drop k xs) (f2, st2)) = None" by auto
    have "n < (length xs - k + bsz - 1) div bsz"
      using n k b frames_from_first [of bsz "length xs"] by (simp add: bsz_def)
    from run_frames_pending [OF _ k(2) ne this] b
    have "run_frames P S n
          (Pending \<lparr>s_data = DArray xs, s_batchSize = bsz, s_fragment = f2\<rparr> k, st2) = None"
      by (simp add: bsz_def)
    with Scheduled pb t c show ?thesis
      by (simp add: render_def bsz_def [symmetric])
  qed
qed

lemma processBatch_no_throw:
  assumes k: "k \<le> length xs"
    and ok: "fst (process_items P S k (drop k xs) (f, st)) = None"
    and c: "container st"
  shows "case processBatch P S (DArray xs) b k (f, st) of
           (Scheduled k', f', st') \<Rightarrow> container st'
         | (Threw e, fs') \<Rightarrow> False
         | (Finished, fs') \<Rightarrow> True"
proof -
  define e where "e = min (k + b) (length xs)"
  define items where "items = take (e - k) (drop k xs)"
  have split: "drop k xs = items @ drop e xs"
    unfolding items_def e_def by (rule batch_split [OF k])
  obtain r f1 st1 where r: "process_items P S k items (f, st) = (r, f1, st1)"
    by (cases "process_items P S k items (f, st)")
  from ok have none: "r = None"
    unfolding split process_items_append r by (auto split: option.splits)
  have c1: "container st1" using process_items_keeps [OF r] c by simp
  have pb: "processBatch P S (DArray xs) b k (f, st) =
      (if e < length xs then (Scheduled e, f1, st1) else commit (length xs) (f1, st1))"
    using r none unfolding items_def e_def by (simp add: Let_def)
  show ?thesis
    unfolding pb using c1 by (simp add: Let_def)
qed

lemma run_frames_no_escape:
  assumes b: "1 \<le> b"
  shows "k < length xs \<Longrightarrow> fst (process_items P S k (drop k xs) (f, st)) = None \<Longrightarrow>
     container st \<Longrightarrow>
     run_frames P S n (Pending \<lparr>s_data = DArray xs, s_batchSize = b, s_fragment = f\<rparr> k, st) =
       Some (s, st') \<Longrightarrow> s = Complete"
proof (induction n arbitrary: k f st)
  case 0
  then show ?case by simp
next
  case (Suc m)
  have kle: "k \<le> length xs" using Suc.prems(1) by simp
  obtain out f1 st1 where pb: "processBatch P S (DArray xs) b k (f, st) = (out, f1, st1)"
    by (cases "processBatch P S (DArray xs) b k (f, st)")
  note ne = processBatch_no_error [OF kle Suc.prems(2), where b = b, unfolded pb]
  note nt = processBatch_no_throw [OF kle Suc.prems(2,3), where b = b, unfolded pb]
  show ?case
  proof (cases out)
    case (Threw e)
    with nt show ?thesis by simp
  next
    case Finished
    with pb Suc.prems(4) show ?thesis by (simp add: frame_def)
  next
    case (Scheduled k')
    with ne nt have k': "k' < length xs"
      and ok': "fst (process_items P S k' (drop k' xs) (f1, st1)) = None"
      and c': "container st1" by auto
    from Suc.prems(4) Scheduled pb
    have "run_frames P S m
        (Pending \<lparr>s_data = DArray xs, s_batchSize = b, s_fragment = f1\<rparr> k', st1) = Some (s, st')"
      by (simp add: frame_def)
    from Suc.IH [OF k' ok' c' this] show ?thesis .
  qed
qed

lemma render_no_escape:
  assumes b: "1 \<le> batchSize (settings st)"
    and c: "capture st = Inr st1"
    and ok: "fst (process_items P S 0 xs ([], st1)) = None"
    and cont: "container st"
    and run: "run_frames P S n (render P S (DArray xs) st) = Some (s, st')"
  shows "s = Complete"
proof (cases "templateHtml st = []")
  case True
  with run show ?thesis by (simp add: render_def)
next
  case False
  define bsz where "bsz = batchSize (settings st)"
  have c1: "container st1" using c cont by (auto simp: capture_def split: if_splits)
  obtain out f2 st2 where pb: "processBatch P S (DArray xs) bsz 0 ([], st1) = (out, f2, st2)"
    by (cases "processBatch P S (DArray xs) bsz 0 ([], st1)")
  have z: "0 \<le> length xs" by simp
  have ok0: "fst (process_items P S 0 (drop 0 xs) ([], st1)) = None" using ok by simp
  note ne = processBatch_no_error [OF z ok0, where b = bsz, unfolded pb]
  note nt = processBatch_no_throw [OF z ok0 c1, where b = bsz, unfolded pb]
  show ?thesis
  proof (cases out)
    case (Threw e)
    with nt show ?thesis by simp
  next
    case Finished
    with pb run False c show ?thesis by (simp add: render_def bsz_def [symmetric])
  next
    case (Scheduled k)
    with ne nt have k: "k < length xs"
      and ok': "fst (process_items P S k (drop k xs) (f2, st2)) = None"
      and c': "container st2" by auto
    from run Scheduled pb False c
    have "run_frames P S n
        (Pending \<lparr>s_data = DArray xs, s_batchSize = bsz, s_fragment = f2\<rparr> k, st2) = Some (s, st')"
      by (simp add: render_def bsz_def [symmetric])
    from run_frames_no_escape [OF _ k ok' c' this] b show ?thesis by (simp add: bsz_def)
  qed
qed

lemma ceil_batches:
  assumes "1 \<le> (b::nat)" "0 < n"
  shows "Suc (frames_needed n b) = (n + b - 1) div b"
proof -
  have "b \<noteq> 0" using assms by simp
  then have h: "(x + b) div b = Suc (x div b)" for x
    by (simp add: div_add_self2)
  have e: "n + b - 1 = (n - 1) + b" using assms by simp
  show ?thesis unfolding frames_needed_def by (simp only: e h)
qed

lemma processBatch_cursor:
  assumes "1 \<le> b" and "processBatch P S (DArray xs) b k fs = (Scheduled k', fs')"
  shows "k < k' \<and> k' = k + b \<and> k' < length xs"
  using assms
  by (auto simp: Let_def min_def commit_cases split: prod.splits option.splits if_splits
      dest: )

section \<open>Reusing nodes\<close>

text \<open>
  Claim C8: with \<^verbatim>\<open>reuseNodes\<close>, a render of \<open>N\<close> items into a container with
  \<open>M > N\<close> children, none of whose items fails, ends with exactly the first \<open>N\<close>
  former children in the container, in their order: the \<open>M - N\<close> trailing ones are
  removed, and each of the first \<open>N\<close> is the node it was (same place in the store, same
  tag, same attached properties) with the markup of the item at its position as its
  inner markup.
\<close>

theorem shorter_rerender_reuses_nodes:
  assumes reuse: "reuseNodes (settings st)" and cont: "container st"
    and tmpl: "templateHtml st \<noteq> []" and b: "1 \<le> batchSize (settings st)"
    and dist: "distinct (children st)"
    and wf: "\<forall>n \<in> set (children st). n < length (nodes st)"
    and shorter: "length xs < length (children st)"
    and ok: "\<forall>i < length xs. \<exists>h. markup S st i (xs ! i) = Inr h"
  shows "\<exists>r. run_frames P S (frames_needed (length xs) (batchSize (settings st)))
               (render P S (DArray xs) st) = Some r
      \<and> fst r = Complete
      \<and> children (snd r) = take (length xs) (children st)
      \<and> length (drop (length xs) (children st)) = length (children st) - length xs
      \<and> set (drop (length xs) (children st)) \<inter> set (children (snd r)) = {}
      \<and> (\<forall>i < length xs.
            nodes (snd r) ! (children st ! i) =
              (nodes st ! (children st ! i))
                \<lparr>innerHTML := innerHTML (nodes (snd r) ! (children st ! i))\<rparr>
          \<and> markup S st i (xs ! i) = Inr (innerHTML (nodes (snd r) ! (children st ! i))))"
proof -
  let ?old = "children st"
  define st1 where "st1 = st\<lparr>existingNodes := ?old\<rparr>"
  have cap: "capture st = Inr st1"
    using reuse cont by (simp add: capture_def st1_def)
  have m: "markup S st1 = markup S st"
    by (intro ext markup_cong) (simp_all add: st1_def)
  have s1: "reuseNodes (settings st1)" "existingNodes st1 = ?old" "children st1 = ?old"
    "nodes st1 = nodes st" "container st1"
    using reuse cont by (simp_all add: st1_def)
  obtain r2 f2 st2 where p: "process_items P S 0 xs ([], st1) = (r2, f2, st2)"
    by (cases "process_items P S 0 xs ([], st1)")
  have "fst (process_items P S 0 xs ([], st1)) = None"
    using process_items_reuse_ok [where st = st1 and i = 0 and items = xs and S = S and P = P and f = "[]"] s1 shorter ok by (simp add: m)
  with p have p: "process_items P S 0 xs ([], st1) = (None, f2, st2)" by simp
  note k = process_items_keeps [OF p]
  have ch2: "children st2 = drop (length xs) ?old"
    using process_items_reuse_children [OF p] s1 dist by simp
  have fr2: "f2 = take (length xs) ?old"
    using process_items_reuse_fragment [OF p] s1 dist shorter by simp
  have disj: "set (drop (length xs) ?old) \<inter> set (take (length xs) ?old) = {}"
    using dist by (metis append_take_drop_id distinct_append inf_commute)
  then have keep: "filter (\<lambda>m. m \<notin> set (drop (length xs) ?old)) (take (length xs) ?old) =
      take (length xs) ?old"
    by (auto intro: filter_True)
  define fin where "fin = snd (snd (commit (length xs) (f2, st2)))"
  have fin_c: "children fin = take (length xs) ?old"
    using k s1 fr2 keep by (simp add: fin_def Let_def)
  have fin_n: "nodes fin = nodes st2"
    using k s1 by (simp add: fin_def Let_def)
  have op: "one_pass P S xs st = fin"
    using tmpl cap p by (simp add: one_pass_def pass_from_def fin_def)
  from render_completes [OF b order_refl, where xs = xs and P = P and S = S] op
  obtain s st' where run: "run_frames P S (frames_needed (length xs) (batchSize (settings st)))
      (render P S (DArray xs) st) = Some (s, st')"
    and n': "nodes st' = nodes fin" and c': "children st' = children fin"
    by auto
  have items: "nodes st2 ! (?old ! i) =
      (nodes st ! (?old ! i))\<lparr>innerHTML := innerHTML (nodes st2 ! (?old ! i))\<rparr>
      \<and> markup S st i (xs ! i) = Inr (innerHTML (nodes st2 ! (?old ! i)))"
    if "i < length xs" for i
    using process_items_reuse_nodes [OF p, where j = i] s1 dist shorter wf that
    by (simp add: m)
  have "fst (process_items P S 0 xs ([], st1)) = None" using p by simp
  from render_no_escape [OF b cap this cont run] have "s = Complete" .
  with run n' c' fin_c fin_n disj items show ?thesis
    by (auto simp: Int_commute)
qed

section \<open>The index placeholder\<close>

lemma markup_index_placeholder:
  assumes "S = FastLoop_substitute \<or> S = loopHtml_substitute"
    and "renderCallback (settings st) = None"
    and "cached_template st = pre @ ''{{index}}'' @ rest"
  shows "markup S st i item =
     (case S pre item i of
        Inl e \<Rightarrow> Inl e
      | Inr a \<Rightarrow>
          (case S rest item i of
             Inl e \<Rightarrow> Inl e
           | Inr b \<Rightarrow> Inr (trim (a @ show_nat (i + 1) @ b))))"
proof -
  have e: "S (cached_template st) item i =
     (case S pre item i of
        Inl e \<Rightarrow> Inl e
      | Inr a \<Rightarrow> (case S rest item i of Inl e \<Rightarrow> Inl e | Inr b \<Rightarrow> Inr (a @ show_nat (i + 1) @ b)))"
    unfolding assms(3)
    using assms(1) substitute_index_placeholder [of pre rest item i] by auto
  show ?thesis
    by (simp add: markup_def item_html_def Let_def assms(2) e js_trim_def split: sum.splits)
qed

lemma capture_fields:
  assumes "capture st = Inr st1"
  shows "nodes st1 = nodes st" "children st1 = children st" "settings st1 = settings st"
    "container st1 = container st" "templateHtml st1 = templateHtml st"
    "cached_template st1 = cached_template st"
    "reuseNodes (settings st) \<Longrightarrow> existingNodes st1 = children st"
  using assms by (auto simp: capture_def split: if_splits)

text \<open>
  Claim C3: in a render with the default substituter of the class or of the plugin,
  the item at position \<open>i\<close> of the data, counted from 0, gets the number \<open>i + 1\<close>
  for an occurrence of \<^verbatim>\<open>{{index}}\<close> in the template, whatever the item is and
  whatever properties it has. For a template \<open>pre @ {{index}} @ rest\<close> and items none of
  which fails, the render completes with one child per item, and the child at
  position \<open>i\<close> carries the trimmed markup made of the substituted \<open>pre\<close>, the
  decimal form of \<open>i + 1\<close> and the substituted \<open>rest\<close>: as the inner markup of the
  existing node at position \<open>i\<close> when that node is reused, and otherwise as the markup
  the new node is parsed from.
\<close>

theorem index_placeholder_renders_position:
  assumes S: "S = FastLoop_substitute \<or> S = loopHtml_substitute"
    and nocb: "renderCallback (settings st) = None"
    and tmpl: "cached_template st = pre @ ''{{index}}'' @ rest"
    and ne: "templateHtml st \<noteq> []"
    and b: "1 \<le> batchSize (settings st)"
    and cont: "container st"
    and dist: "distinct (children st)"
    and wf: "\<forall>n \<in> set (children st). n < length (nodes st)"
    and cap: "capture st = Inr st1"
    and ok: "fst (process_items P S 0 xs ([], st1)) = None"
    and i: "i < length xs"
  shows "\<exists>r a b. run_frames P S (frames_needed (length xs) (batchSize (settings st)))
                   (render P S (DArray xs) st) = Some r
      \<and> fst r = Complete
      \<and> length (children (snd r)) = length xs
      \<and> S pre (xs ! i) i = Inr a
      \<and> S rest (xs ! i) i = Inr b
      \<and> markup S st i (xs ! i) = Inr (trim (a @ show_nat (i + 1) @ b))
      \<and> (if reuseNodes (settings st) \<and> i < length (children st)
         then children (snd r) ! i = children st ! i
            \<and> nodes (snd r) ! (children (snd r) ! i) =
                (nodes st ! (children st ! i))\<lparr>innerHTML := trim (a @ show_nat (i + 1) @ b)\<rparr>
         else P (trim (a @ show_nat (i + 1) @ b)) = Some (nodes (snd r) ! (children (snd r) ! i)))"
proof -
  note c = capture_fields [OF cap]
  let ?re = "reuseNodes (settings st)"
  let ?old = "children st"
  have m: "markup S st1 = markup S st"
    by (intro ext markup_cong) (simp_all add: c)
  obtain f2 st2 where p: "process_items P S 0 xs ([], st1) = (None, f2, st2)"
    using ok by (cases "process_items P S 0 xs ([], st1)") auto
  note k = process_items_keeps [OF p]
  have pre1: "distinct (existingNodes st1) \<and> (\<forall>n \<in> set (existingNodes st1). n < length (nodes st1))
      \<and> set [] \<inter> set (drop 0 (existingNodes st1)) = {}"
    if "reuseNodes (settings st1)"
    using that dist wf c by simp
  from process_items_positions [OF p pre1]
  obtain g where g: "f2 = g" "length g = length xs" "length (nodes st1) \<le> length (nodes st2)"
    and each: "\<forall>j < length xs. \<exists>h. markup S st1 (0 + j) (xs ! j) = Inr h
          \<and> (if reuseNodes (settings st1) \<and> 0 + j < length (existingNodes st1)
              then g ! j = existingNodes st1 ! (0 + j)
                 \<and> nodes st2 ! (g ! j) = (nodes st1 ! (g ! j))\<lparr>innerHTML := h\<rparr>
              else length (nodes st1) \<le> g ! j \<and> g ! j < length (nodes st2)
                 \<and> P h = Some (nodes st2 ! (g ! j)))"
    by auto
  have each': "\<exists>h. markup S st j (xs ! j) = Inr h
          \<and> (if ?re \<and> j < length ?old
              then g ! j = ?old ! j
                 \<and> nodes st2 ! (g ! j) = (nodes st ! (g ! j))\<lparr>innerHTML := h\<rparr>
              else length (nodes st) \<le> g ! j \<and> g ! j < length (nodes st2)
                 \<and> P h = Some (nodes st2 ! (g ! j)))"
    if j: "j < length xs" for j
  proof -
    from each j have "\<exists>h. markup S st1 (0 + j) (xs ! j) = Inr h
          \<and> (if reuseNodes (settings st1) \<and> 0 + j < length (existingNodes st1)
              then g ! j = existingNodes st1 ! (0 + j)
                 \<and> nodes st2 ! (g ! j) = (nodes st1 ! (g ! j))\<lparr>innerHTML := h\<rparr>
              else length (nodes st1) \<le> g ! j \<and> g ! j < length (nodes st2)
                 \<and> P h = Some (nodes st2 ! (g ! j)))"
      by blast
    then have "\<exists>h. markup S st1 j (xs ! j) = Inr h
          \<and> (if reuseNodes (settings st1) \<and> j < length (existingNodes st1)
              then g ! j = existingNodes st1 ! j
                 \<and> nodes st2 ! (g ! j) = (nodes st1 ! (g ! j))\<lparr>innerHTML := h\<rparr>
              else length (nodes st1) \<le> g ! j \<and> g ! j < length (nodes st2)
                 \<and> P h = Some (nodes st2 ! (g ! j)))"
      by (simp only: add_0)
    then obtain h where h: "markup S st1 j (xs ! j) = Inr h"
      and hc: "if reuseNodes (settings st1) \<and> j < length (existingNodes st1)
              then g ! j = existingNodes st1 ! j
                 \<and> nodes st2 ! (g ! j) = (nodes st1 ! (g ! j))\<lparr>innerHTML := h\<rparr>
              else length (nodes st1) \<le> g ! j \<and> g ! j < length (nodes st2)
                 \<and> P h = Some (nodes st2 ! (g ! j))"
      by blast
    have h': "markup S st j (xs ! j) = Inr h" using h m by simp
    show ?thesis
    proof (cases ?re)
      case True
      from hc have "if ?re \<and> j < length ?old
              then g ! j = ?old ! j
                 \<and> nodes st2 ! (g ! j) = (nodes st ! (g ! j))\<lparr>innerHTML := h\<rparr>
              else length (nodes st) \<le> g ! j \<and> g ! j < length (nodes st2)
                 \<and> P h = Some (nodes st2 ! (g ! j))"
        unfolding c(1) c(3) c(7) [OF True] .
      with h' show ?thesis by blast
    next
      case False
      with hc have "length (nodes st) \<le> g ! j \<and> g ! j < length (nodes st2)
                 \<and> P h = Some (nodes st2 ! (g ! j))"
        by (simp add: c)
      with h' False show ?thesis by auto
    qed
  qed
  define gone where "gone = (if ?re then drop (length xs) ?old else [])"
  have away: "x \<notin> set gone" if x: "x \<in> set g" for x
  proof (cases ?re)
    case False
    then show ?thesis by (simp add: gone_def)
  next
    case True
    from x obtain j where j: "j < length xs" "x = g ! j"
      using g(2) by (auto simp: in_set_conv_nth)
    from each' [OF j(1)] obtain h where
      h: "if ?re \<and> j < length ?old
              then g ! j = ?old ! j
                 \<and> nodes st2 ! (g ! j) = (nodes st ! (g ! j))\<lparr>innerHTML := h\<rparr>
              else length (nodes st) \<le> g ! j \<and> g ! j < length (nodes st2)
                 \<and> P h = Some (nodes st2 ! (g ! j))" by blast
    show ?thesis
    proof (cases "j < length ?old")
      case inside: True
      with h True have "g ! j = ?old ! j" by simp
      moreover have "?old ! j \<in> set (take (length xs) ?old)"
        using inside j(1) by (auto simp: in_set_conv_nth intro!: exI [of _ j])
      moreover have "set (take (length xs) ?old) \<inter> set (drop (length xs) ?old) = {}"
        using dist by (metis append_take_drop_id distinct_append)
      ultimately show ?thesis using j(2) True by (auto simp: gone_def)
    next
      case outside: False
      with h have "length (nodes st) \<le> g ! j" by simp
      moreover have "\<forall>n \<in> set (drop (length xs) ?old). n < length (nodes st)"
        using wf by (auto dest: in_set_dropD)
      ultimately show ?thesis using j(2) True by (auto simp: gone_def)
    qed
  qed
  then have keep: "filter (\<lambda>m. m \<notin> set gone) g = g"
    by (auto intro: filter_True)
  define fin where "fin = snd (snd (commit (length xs) (f2, st2)))"
  have fin_c: "children fin = g"
    using k c cont g(1) keep
    by (cases ?re) (simp_all add: fin_def Let_def gone_def c(7))
  have fin_n: "nodes fin = nodes st2"
    using k c cont by (simp add: fin_def Let_def)
  have op: "one_pass P S xs st = fin"
    using ne cap p by (simp add: one_pass_def pass_from_def fin_def)
  from render_completes [OF b order_refl, where xs = xs and P = P and S = S] op
  obtain s st' where run: "run_frames P S (frames_needed (length xs) (batchSize (settings st)))
      (render P S (DArray xs) st) = Some (s, st')"
    and n': "nodes st' = nodes fin" and c': "children st' = children fin"
    by auto
  from render_no_escape [OF b cap ok cont run] have s: "s = Complete" .
  from each' [OF i] obtain h where hm: "markup S st i (xs ! i) = Inr h"
    and hn: "if ?re \<and> i < length ?old
              then g ! i = ?old ! i
                 \<and> nodes st2 ! (g ! i) = (nodes st ! (g ! i))\<lparr>innerHTML := h\<rparr>
              else length (nodes st) \<le> g ! i \<and> g ! i < length (nodes st2)
                 \<and> P h = Some (nodes st2 ! (g ! i))" by blast
  from hm obtain a b' where ab: "S pre (xs ! i) i = Inr a" "S rest (xs ! i) i = Inr b'"
    "h = trim (a @ show_nat (i + 1) @ b')"
    unfolding markup_index_placeholder [OF S nocb tmpl]
    by (auto split: sum.splits)
  have last: "if ?re \<and> i < length ?old
         then children st' ! i = ?old ! i
            \<and> nodes st' ! (children st' ! i) =
                (nodes st ! (?old ! i))\<lparr>innerHTML := trim (a @ show_nat (i + 1) @ b')\<rparr>
         else P (trim (a @ show_nat (i + 1) @ b')) = Some (nodes st' ! (children st' ! i))"
    using hn ab(3) n' c' fin_c fin_n by (auto split: if_splits)
  have len: "length (children st') = length xs" using c' fin_c g(2) by simp
  from run s len ab hm last show ?thesis
    by - (rule exI [of _ "(s, st')"], rule exI [of _ a], rule exI [of _ b'],
        auto split: if_splits)
qed

section \<open>The empty template\<close>

lemma render_empty_template: "templateHtml st = [] \<Longrightarrow> render P S dat st = (Complete, st)"
  by (simp add: render_def)

text \<open>
  Claim C10: when the extracted template is the empty string, every call of the render
  function and every data update is complete at once, throws nothing and leaves the
  document as it is, in the class and in the plugin; so does the initial render of a
  construction that gets through its checks, and the configured data is never rendered.
  In the plugin the template is the empty string also when none is passed, or
  \<^verbatim>\<open>undefined\<close>.
\<close>

theorem empty_template_renders_nothing:
  assumes "templateHtml st = []"
    and "template opts = TString [] \<or> template opts = TElement []"
  shows "FastLoop_render P dat st = (Complete, st)
    \<and> loopHtml_render P dat st = (Complete, st)
    \<and> fst (FastLoop_updateData P dat st) = Complete
    \<and> dom_of (snd (FastLoop_updateData P dat st)) = dom_of st
    \<and> fst (loopHtml_onUpdate P dat st) = Complete
    \<and> dom_of (snd (loopHtml_onUpdate P dat st)) = dom_of st
    \<and> (template (Object_assign raw) = TString [] \<or> template (Object_assign raw) = TElement [] \<longrightarrow>
         (\<forall>r. FastLoop_new P cont raw d = Inr r \<longrightarrow> fst r = Complete \<and> dom_of (snd r) = d))
    \<and> (\<forall>s st'. loopHtml_each P opts d = Installed s st' \<longrightarrow> s = Complete \<and> dom_of st' = d)
    \<and> (template (jquery_extend raw) = TString [] \<or> template (jquery_extend raw) = TElement [] \<longrightarrow>
         (\<forall>s st'. loopHtml P raw d = Installed s st' \<longrightarrow> s = Complete \<and> dom_of st' = d))"
    (is "?r1 \<and> ?r2 \<and> ?u1 \<and> ?u2 \<and> ?u3 \<and> ?u4 \<and> ?new \<and> ?each \<and> ?plugin")
proof -
  have a: ?r1 ?r2
    using assms(1) by (simp_all add: FastLoop_render_def loopHtml_render_def render_empty_template)
  have b: ?u1 ?u2 ?u3 ?u4
    using assms(1)
    by (simp_all add: FastLoop_updateData_def loopHtml_onUpdate_def FastLoop_render_def
        loopHtml_render_def render_empty_template dom_of_def)
  have init: "fst r = Complete \<and> dom_of (snd r) = d"
    if "FastLoop_init P
          \<lparr>nodes = nodes d, children = children d, console = console d,
           settings = Object_assign raw, container = present, templateHtml = [],
           compiledTemplate = None, existingNodes = []\<rparr> = Inr r"
      and "template (Object_assign raw) = TString [] \<or> template (Object_assign raw) = TElement []"
    for r present
    using that
    by (auto simp: FastLoop_init_def FastLoop_render_def render_empty_template dom_of_def
        split: if_splits)
  have c: ?new
  proof (intro impI allI)
    fix r
    assume t: "template (Object_assign raw) = TString [] \<or> template (Object_assign raw) = TElement []"
      and n: "FastLoop_new P cont raw d = Inr r"
    show "fst r = Complete \<and> dom_of (snd r) = d"
    proof (cases cont)
      case (CSelector q)
      with n init [OF _ t] show ?thesis
        by (cases q) (simp_all add: FastLoop_new_def)
    next
      case CElement
      with n init [OF _ t] show ?thesis by (simp add: FastLoop_new_def)
    next
      case COther
      with n show ?thesis by (simp add: FastLoop_new_def)
    qed
  qed
  have each: "s = Complete \<and> dom_of st' = d"
    if "loopHtml_each P o' d = Installed s st'"
      and "template o' = TString [] \<or> template o' = TElement []" for s st' o'
    using that
    by (auto simp: loopHtml_each_def Let_def loopHtml_render_def render_empty_template dom_of_def
        split: if_splits)
  have e: ?each using each assms(2) by blast
  have f: ?plugin using each [of "jquery_extend raw"] by (simp add: loopHtml_def)
  from a b c e f show ?thesis by (intro conjI)
qed

section \<open>Examples on the sample document\<close>

lemma demo_one_pass:
  "children (one_pass p_parser FastLoop_substitute demo_items demo_state) = [0, 1, 2]"
  "nodes (one_pass p_parser FastLoop_substitute demo_items demo_state) =
     [\<lparr>tag = ''li'', innerHTML = ''<p>1:A</p>'', expando = [''marker'']\<rparr>,
      \<lparr>tag = ''li'', innerHTML = ''<p>2:B</p>'', expando = []\<rparr>,
      \<lparr>tag = ''p'', innerHTML = ''3:C'', expando = []\<rparr>]"
  by code_simp+

theorem batch_size_does_not_change_rendering_witness:
  "\<exists>r1 r3. run_frames p_parser FastLoop_substitute (frames_needed (length demo_items) 1)
        (render p_parser FastLoop_substitute (DArray demo_items)
           (demo_state\<lparr>settings := (settings demo_state)\<lparr>batchSize := 1\<rparr>\<rparr>)) = Some r1
    \<and> run_frames p_parser FastLoop_substitute (frames_needed (length demo_items) 3)
        (render p_parser FastLoop_substitute (DArray demo_items)
           (demo_state\<lparr>settings := (settings demo_state)\<lparr>batchSize := 3\<rparr>\<rparr>)) = Some r3
    \<and> children (snd r1) = [0, 1, 2] \<and> children (snd r3) = [0, 1, 2]
    \<and> nodes (snd r1) = nodes (snd r3)
    \<and> map innerHTML (nodes (snd r1)) = [''<p>1:A</p>'', ''<p>2:B</p>'', ''3:C'']"
proof -
  have "(1::nat) \<le> 1" "(1::nat) \<le> 3" by simp_all
  from batch_size_does_not_change_rendering [OF this(1), of p_parser FastLoop_substitute demo_items demo_state]
    batch_size_does_not_change_rendering [OF this(2), of p_parser FastLoop_substitute demo_items demo_state]
  show ?thesis
    unfolding demo_one_pass by auto
qed

section \<open>Termination and the number of batches\<close>

text \<open>
  Claim C9: with a batch size of at least 1 every render comes to an end: the frames
  that \<open>frames_needed\<close> counts are enough for it, whatever the items do. Each batch
  that schedules a successor moves the cursor forward by the batch size, to a
  position still inside the array. When no item fails, no smaller number of frames is
  enough: with the batch that the render call runs itself, an array of \<open>N > 0\<close> items
  takes exactly \<open>\<lceil>N / batchSize\<rceil>\<close> batches (and the only batch of an empty array
  processes no item).
\<close>

theorem render_terminates_in_ceil_batches:
  assumes "1 \<le> batchSize (settings st)"
  shows "(\<exists>s st'. run_frames P S (frames_needed (length xs) (batchSize (settings st)))
                   (render P S (DArray xs) st) = Some (s, st')
                 \<and> (s = Complete \<or> (\<exists>e. s = Escaped e)))
    \<and> (templateHtml st \<noteq> [] \<and> capture st = Inr st1
          \<and> fst (process_items P S 0 xs ([], st1)) = None \<longrightarrow>
        (\<forall>n < frames_needed (length xs) (batchSize (settings st)).
           run_frames P S n (render P S (DArray xs) st) = None)
        \<and> (container st \<longrightarrow>
             (\<exists>st'. run_frames P S (frames_needed (length xs) (batchSize (settings st)))
                     (render P S (DArray xs) st) = Some (Complete, st'))))
    \<and> (0 < length xs \<longrightarrow>
          Suc (frames_needed (length xs) (batchSize (settings st))) =
            (length xs + batchSize (settings st) - 1) div batchSize (settings st))
    \<and> (\<forall>k k' fs fs'.
          processBatch P S (DArray xs) (batchSize (settings st)) k fs = (Scheduled k', fs') \<longrightarrow>
          k < k' \<and> k' = k + batchSize (settings st) \<and> k' < length xs)"
    (is "?ends \<and> (?ok \<longrightarrow> ?pending \<and> (?cont \<longrightarrow> ?complete)) \<and> ?ceil \<and> ?cursor")
proof -
  from render_completes [OF assms order_refl, where xs = xs and P = P and S = S]
  have a: ?ends by blast
  have b: "?ok \<longrightarrow> ?pending \<and> (?cont \<longrightarrow> ?complete)"
  proof (intro impI conjI)
    assume h: ?ok
    show ?pending
      using render_needs_frames [OF assms, of st1 P S xs] h by blast
  next
    assume h: ?ok and cont: ?cont
    from a obtain s st' where
      run: "run_frames P S (frames_needed (length xs) (batchSize (settings st)))
              (render P S (DArray xs) st) = Some (s, st')"
      by blast
    from h have "capture st = Inr st1" "fst (process_items P S 0 xs ([], st1)) = None"
      by simp_all
    from render_no_escape [OF assms this cont run] have "s = Complete" .
    with run show ?complete by blast
  qed
  have c: ?ceil
    using ceil_batches [OF assms] by blast
  have d: ?cursor
    using processBatch_cursor [OF assms] by blast
  from a b c d show ?thesis by (intro conjI)
qed

lemma demo_capture:
  "capture demo_state = Inr (demo_state\<lparr>existingNodes := [0, 1]\<rparr>)"
  by (simp add: capture_def demo_state_def demo_options_def demo_dom_def)

lemma demo_first_pass:
  "fst (process_items p_parser FastLoop_substitute 0 demo_items
          ([], demo_state\<lparr>existingNodes := [0, 1]\<rparr>)) = None"
  "templateHtml demo_state \<noteq> []"
  "batchSize (settings demo_state) = 2"
  "length demo_items = 3"
  by code_simp+

theorem render_terminates_in_ceil_batches_witness:
  "1 \<le> batchSize (settings demo_state)
   \<and> frames_needed (length demo_items) (batchSize (settings demo_state)) = 1
   \<and> run_frames p_parser FastLoop_substitute 0
        (render p_parser FastLoop_substitute (DArray demo_items) demo_state) = None
   \<and> (\<exists>st'. run_frames p_parser FastLoop_substitute 1
        (render p_parser FastLoop_substitute (DArray demo_items) demo_state) = Some (Complete, st'))
   \<and> (length demo_items + batchSize (settings demo_state) - 1) div batchSize (settings demo_state) = 2"
proof -
  have b: "1 \<le> batchSize (settings demo_state)" by (simp add: demo_first_pass)
  have f: "frames_needed (length demo_items) (batchSize (settings demo_state)) = 1"
    by (simp add: demo_first_pass frames_needed_def)
  have e: "map_option fst (run_frames p_parser FastLoop_substitute 1
        (render p_parser FastLoop_substitute (DArray demo_items) demo_state)) = Some Complete"
    by code_simp
  from render_terminates_in_ceil_batches [OF b, of p_parser FastLoop_substitute demo_items
      "demo_state\<lparr>existingNodes := [0, 1]\<rparr>"]
  show ?thesis
    unfolding f using demo_capture demo_first_pass e by auto
qed

section \<open>The two surfaces\<close>






text \<open>
  The substituters differ where a property is \<^verbatim>\<open>false\<close>: the class prints it, the
  plugin prints nothing.
\<close>

lemma surfaces_differ_on_false:
  "FastLoop_substitute ''<b>{{done}}</b>'' (JObj [(''done'', JBool False)]) 0
     \<noteq> loopHtml_substitute ''<b>{{done}}</b>'' (JObj [(''done'', JBool False)]) 0"
  by code_simp


lemma merged_data:
  "o_data raw = Undefined \<Longrightarrow>
     data (Object_assign raw) = DNullish \<and> data (jquery_extend raw) = DArray []"
  "o_data raw = Passed v \<Longrightarrow> data (Object_assign raw) = v \<and> data (jquery_extend raw) = v"
  by (simp_all add: Object_assign_def jquery_extend_def default_options_def)

lemma FastLoop_new_rejects:
  assumes "cont = CSelector NoMatch \<or> cont = CSelector Found \<or> cont = CElement"
  shows "validateData (Object_assign raw) \<and> \<not> is_array (data (Object_assign raw)) \<Longrightarrow>
           FastLoop_new P cont raw d = Inl (Error ''Data must be an array!'')"
    and "\<not> (validateData (Object_assign raw) \<and> \<not> is_array (data (Object_assign raw))) \<and>
         template (Object_assign raw) = TOther \<Longrightarrow>
           FastLoop_new P cont raw d = Inl (Error ''Invalid template format!'')"
  using assms by (auto simp: FastLoop_new_def FastLoop_init_def)

lemma loopHtml_rejects:
  shows "validateData (jquery_extend raw) \<and> \<not> is_array (data (jquery_extend raw)) \<Longrightarrow>
           loopHtml P raw d =
             NotInstalled (d\<lparr>console := console d @ [ConsoleError ''Data must be an array!'' None]\<rparr>)"
    and "\<not> (validateData (jquery_extend raw) \<and> \<not> is_array (data (jquery_extend raw))) \<and>
         template (jquery_extend raw) = TOther \<Longrightarrow>
           loopHtml P raw d =
             NotInstalled (d\<lparr>console := console d @ [ConsoleError ''Invalid template format!'' None]\<rparr>)"
  by (auto simp: loopHtml_def loopHtml_each_def)



text \<open>
  The class does not skip silently: with \<^verbatim>\<open>validateData\<close> and the number-like data
  \<open>DNoLength\<close>, \<^verbatim>\<open>new FastLoop\<close> on the container element throws.
\<close>

theorem class_throws_on_invalid_data:
  "FastLoop_new p_parser CElement (demo_raw\<lparr>o_data := Passed DNoLength\<rparr>) demo_dom =
     Inl (Error ''Data must be an array!'')"
  by (simp add: FastLoop_new_def FastLoop_init_def Object_assign_def default_options_def
      demo_raw_def is_array_def)

text \<open>
  Claim C5, as the code has it: where the merged settings of a surface have
  \<^verbatim>\<open>validateData\<close> set and data that is no array, nothing is rendered. The plugin
  writes the message to the console and returns: the nodes and the container are
  untouched and nothing is thrown. The class throws out of the constructor, before any
  render: the \<^verbatim>\<open>SyntaxError\<close> of \<^verbatim>\<open>document.querySelector\<close> for a container string
  that is no selector, the error of the container check for a container that is neither
  a string nor an element, and otherwise an \<^verbatim>\<open>Error\<close> with the message of the data
  check. Data passed as \<^verbatim>\<open>undefined\<close> is undefined data for the class, and the
  default empty array, which passes the check, for the plugin.
\<close>

theorem invalid_data_is_rejected_before_rendering:
  "(validateData (jquery_extend raw) \<and> \<not> is_array (data (jquery_extend raw)) \<longrightarrow>
      loopHtml P raw d =
        NotInstalled (d\<lparr>console := console d @ [ConsoleError ''Data must be an array!'' None]\<rparr>))
   \<and> (validateData (Object_assign raw) \<and> \<not> is_array (data (Object_assign raw)) \<longrightarrow>
        FastLoop_new P cont raw d =
          (case cont of
             CSelector BadSelector \<Rightarrow> Inl SyntaxError
           | COther \<Rightarrow> Inl (Error ''Invalid container. Must be a CSS selector or HTMLElement'')
           | _ \<Rightarrow> Inl (Error ''Data must be an array!'')))
   \<and> (o_data raw = Undefined \<longrightarrow>
        data (Object_assign raw) = DNullish \<and> data (jquery_extend raw) = DArray []
        \<and> is_array (data (jquery_extend raw)))
   \<and> (\<forall>v. o_data raw = Passed v \<longrightarrow>
        data (Object_assign raw) = v \<and> data (jquery_extend raw) = v)"
  (is "?plugin \<and> ?thrown \<and> ?undef \<and> ?passed")
proof -
  have a: ?plugin using loopHtml_rejects(1) [of raw P d] by blast
  have b: ?thrown
  proof (intro impI)
    assume h: "validateData (Object_assign raw) \<and> \<not> is_array (data (Object_assign raw))"
    show "FastLoop_new P cont raw d =
          (case cont of
             CSelector BadSelector \<Rightarrow> Inl SyntaxError
           | COther \<Rightarrow> Inl (Error ''Invalid container. Must be a CSS selector or HTMLElement'')
           | _ \<Rightarrow> Inl (Error ''Data must be an array!''))"
    proof (cases cont)
      case (CSelector q)
      then show ?thesis
        using h FastLoop_new_rejects(1) [of cont raw P d]
        by (cases q) (simp_all add: FastLoop_new_def)
    next
      case CElement
      then show ?thesis using h FastLoop_new_rejects(1) [of cont raw P d] by simp
    next
      case COther
      then show ?thesis by (simp add: FastLoop_new_def)
    qed
  qed
  have c: ?undef using merged_data(1) [of raw] by (auto simp: is_array_def)
  have e: ?passed using merged_data(2) [of raw] by blast
  from a b c e show ?thesis by (intro conjI)
qed

section \<open>Errors in the first batch\<close>

lemma take_split_at:
  assumes "k < e" and "e \<le> length xs"
  shows "take e xs = take k xs @ xs ! k # take (e - Suc k) (drop (Suc k) xs)"
proof -
  have "take e xs = take (k + (e - k)) xs" using assms by simp
  also have "\<dots> = take k xs @ take (e - k) (drop k xs)" by (rule take_add)
  also have "drop k xs = xs ! k # drop (Suc k) xs"
    using assms by (simp add: Cons_nth_drop_Suc)
  also have "take (e - k) (xs ! k # drop (Suc k) xs) = xs ! k # take (e - Suc k) (drop (Suc k) xs)"
  proof -
    have "e - k = Suc (e - Suc k)" using assms by simp
    then show ?thesis by simp
  qed
  finally show ?thesis .
qed

lemma render_first_batch_error:
  assumes t: "templateHtml st \<noteq> []" and c: "capture st = Inr st1"
    and k: "k < length xs" and kb: "k < batchSize (settings st)"
    and ok: "process_items P S 0 (take k xs) ([], st1) = (None, f1, st2)"
    and err: "process_item P S k (xs ! k) (f1, st2) = (Some e, f2, st3)"
  shows "render P S (DArray xs) st = (Complete, log_error ''Render error:'' (Some e) st3)"
proof -
  define b where "b = batchSize (settings st)"
  define en where "en = min b (length xs)"
  have "k < en" "en \<le> length xs" using k kb by (simp_all add: en_def b_def)
  from take_split_at [OF this]
  have sp: "take en xs = take k xs @ xs ! k # take (en - Suc k) (drop (Suc k) xs)" .
  have lk: "min (length xs) k = k" using k by simp
  have "process_items P S 0 (take en xs) ([], st1) = (Some e, f2, st3)"
    unfolding sp process_items_append ok
    using err by (simp add: lk del: process_item.simps)
  then have "processBatch P S (DArray xs) b 0 ([], st1) = (Threw e, f2, st3)"
    by (simp add: en_def)
  with t c show ?thesis
    by (simp add: render_def b_def)
qed

lemma capture_cases:
  assumes "capture st = Inr st1"
  shows "st1 = (if reuseNodes (settings st) then st\<lparr>existingNodes := children st\<rparr> else st)"
  using assms by (auto simp: capture_def split: if_splits)

lemma after_prefix:
  assumes c: "capture st = Inr st1"
    and ok: "process_items P S 0 items ([], st1) = (None, f1, st2)"
    and d: "distinct (children st)"
  shows "children st2 =
           (if reuseNodes (settings st) then drop (length items) (children st) else children st)"
    and "\<not> reuseNodes (settings st) \<Longrightarrow> take (length (nodes st)) (nodes st2) = nodes st"
    and "n \<in> set (children st2) \<Longrightarrow> n < length (nodes st) \<Longrightarrow> nodes st2 ! n = nodes st ! n"
    and "settings st2 = settings st \<and> templateHtml st2 = templateHtml st
         \<and> container st2 = container st \<and> console st2 = console st
         \<and> cached_template st2 = cached_template st
         \<and> existingNodes st2 = existingNodes st1"
proof -
  note s1 = capture_cases [OF c]
  note k = process_items_keeps [OF ok]
  show keep: "settings st2 = settings st \<and> templateHtml st2 = templateHtml st
         \<and> container st2 = container st \<and> console st2 = console st
         \<and> cached_template st2 = cached_template st
         \<and> existingNodes st2 = existingNodes st1"
    using k s1 by (simp split: if_splits)
  show ch: "children st2 =
           (if reuseNodes (settings st) then drop (length items) (children st) else children st)"
  proof (cases "reuseNodes (settings st)")
    case True
    with s1 have "reuseNodes (settings st1)" "existingNodes st1 = children st"
      "children st1 = drop 0 (existingNodes st1)" by simp_all
    with process_items_reuse_children [OF ok] d True show ?thesis by simp
  next
    case False
    with s1 process_items_fresh [OF ok] show ?thesis by simp
  qed
  show "take (length (nodes st)) (nodes st2) = nodes st" if "\<not> reuseNodes (settings st)"
    using that s1 process_items_fresh [OF ok] by simp
  show "nodes st2 ! n = nodes st ! n" if n: "n \<in> set (children st2)" "n < length (nodes st)"
  proof -
    have n1: "n < length (nodes st1)" using n(2) s1 by (simp split: if_splits)
    have out: "n \<notin> set (take (length items) (drop 0 (existingNodes st1)))"
      if re: "reuseNodes (settings st1)"
    proof -
      from re s1 have r: "reuseNodes (settings st)" by (simp split: if_splits)
      with s1 have e: "existingNodes st1 = children st" by simp
      from n(1) ch r have "n \<in> set (drop (length items) (children st))" by simp
      moreover have "set (take (length items) (children st)) \<inter> set (drop (length items) (children st)) = {}"
        using d by (metis append_take_drop_id distinct_append)
      ultimately show ?thesis using e by auto
    qed
    from process_items_untouched [OF ok n1 out] s1 show ?thesis by (simp split: if_splits)
  qed
qed

text \<open>
  A caught error does not leave the container as it was: the sample container has the
  children 0 and 1, the callback throws at the second item, and after the render call
  the container has lost child 0, whose inner markup has been overwritten.
\<close>

theorem caught_error_leaves_container_changed:
  "fst (render p_parser FastLoop_substitute (DArray demo_items) throwing_state) = Complete
   \<and> console (snd (render p_parser FastLoop_substitute (DArray demo_items) throwing_state)) =
       [ConsoleError ''Render error:'' (Some (Error ''boom''))]
   \<and> children throwing_state = [0, 1]
   \<and> children (snd (render p_parser FastLoop_substitute (DArray demo_items) throwing_state)) = [1]
   \<and> map innerHTML (nodes throwing_state) = [''w'', ''x'']
   \<and> map innerHTML (nodes (snd (render p_parser FastLoop_substitute (DArray demo_items) throwing_state))) =
       [''<p>ok</p>'', ''x'']"
  by code_simp

text \<open>
  Claim C6, as the code has it: when item \<open>k\<close> of the first batch throws, the items
  before it having succeeded, the render call returns normally with nothing pending:
  the error is written to the console, nothing is swapped into the container, and the
  settings, the template and the container reference are as before, so that the
  instance can render again. Without \<^verbatim>\<open>reuseNodes\<close> the container has the children
  it had and the nodes that existed are unchanged. With \<^verbatim>\<open>reuseNodes\<close> the existing
  nodes at the positions before \<open>k\<close> have left the container for the fragment, which
  is dropped: the container keeps its children from position \<open>k\<close> on, and these are
  unchanged. (There is no rollback of the nodes already reused.)
\<close>

theorem render_error_is_caught_without_swap:
  assumes t: "templateHtml st \<noteq> []" and c: "capture st = Inr st1"
    and k: "k < length xs" and kb: "k < batchSize (settings st)"
    and ok: "process_items P S 0 (take k xs) ([], st1) = (None, f1, st2)"
    and err: "process_item P S k (xs ! k) (f1, st2) = (Some e, f2, st3)"
    and d: "distinct (children st)"
  shows "\<exists>st'. render P S (DArray xs) st = (Complete, st')
      \<and> console st' = console st @ [ConsoleError ''Render error:'' (Some e)]
      \<and> settings st' = settings st \<and> templateHtml st' = templateHtml st
      \<and> container st' = container st
      \<and> children st' = (if reuseNodes (settings st) then drop k (children st) else children st)
      \<and> (\<not> reuseNodes (settings st) \<longrightarrow> take (length (nodes st)) (nodes st') = nodes st)
      \<and> (\<forall>n \<in> set (children st'). n < length (nodes st) \<longrightarrow> nodes st' ! n = nodes st ! n)"
proof -
  define st' where "st' = log_error ''Render error:'' (Some e) st3"
  have r: "render P S (DArray xs) st = (Complete, st')"
    unfolding st'_def by (rule render_first_batch_error [OF t c k kb ok err])
  note e3 = process_item_error [OF err]
  note k3 = process_item_keeps [OF err]
  have n3: "nodes st3 = nodes st2" "children st3 = children st2"
    using e3 item_html_keeps(6,7) [of S k "xs ! k" st2] by simp_all
  have lk: "length (take k xs) = k" using k by simp
  note ap = after_prefix [OF c ok d, unfolded lk]
  have "console st' = console st @ [ConsoleError ''Render error:'' (Some e)]"
    using k3 ap(4) by (simp add: st'_def log_error_def)
  moreover have "settings st' = settings st \<and> templateHtml st' = templateHtml st
      \<and> container st' = container st"
    using k3 ap(4) by (simp add: st'_def log_error_def)
  moreover have "children st' =
      (if reuseNodes (settings st) then drop k (children st) else children st)"
    using n3 ap(1) by (simp add: st'_def log_error_def)
  moreover have "take (length (nodes st)) (nodes st') = nodes st" if "\<not> reuseNodes (settings st)"
    using n3 ap(2) [OF that] by (simp add: st'_def log_error_def)
  moreover have "nodes st' ! n = nodes st ! n"
    if "n \<in> set (children st')" "n < length (nodes st)" for n
    using that n3 ap(3) [of n] by (simp add: st'_def log_error_def)
  ultimately show ?thesis using r by blast
qed

theorem render_error_is_caught_without_swap_witness:
  "\<exists>st'. render p_parser FastLoop_substitute (DArray demo_items) throwing_state = (Complete, st')
      \<and> console st' = [ConsoleError ''Render error:'' (Some (Error ''boom''))]
      \<and> settings st' = settings throwing_state
      \<and> children st' = [1]"
proof -
  define st1 where "st1 = throwing_state\<lparr>existingNodes := [0, 1]\<rparr>"
  define X where "X = process_items p_parser FastLoop_substitute 0 (take 1 demo_items) ([], st1)"
  define Y where "Y = process_item p_parser FastLoop_substitute 1 (demo_items ! 1) (snd X)"
  have t: "templateHtml throwing_state \<noteq> []" by code_simp
  have c: "capture throwing_state = Inr st1"
    by (simp add: capture_def st1_def throwing_state_def demo_state_def demo_options_def demo_dom_def)
  have k: "1 < length demo_items" "1 < batchSize (settings throwing_state)" by code_simp+
  have "fst X = None" unfolding X_def st1_def by code_simp
  then have ok: "process_items p_parser FastLoop_substitute 0 (take 1 demo_items) ([], st1) =
      (None, fst (snd X), snd (snd X))"
    unfolding X_def [symmetric] by (metis prod.collapse)
  have "fst Y = Some (Error ''boom'')" unfolding Y_def X_def st1_def by code_simp
  then have err: "process_item p_parser FastLoop_substitute 1 (demo_items ! 1) (fst (snd X), snd (snd X)) =
      (Some (Error ''boom''), fst (snd Y), snd (snd Y))"
    unfolding Y_def [symmetric] by (metis Y_def prod.collapse)
  have d: "distinct (children throwing_state)" by code_simp
  have v: "console throwing_state = []" "reuseNodes (settings throwing_state)"
    "children throwing_state = [0, 1]" by code_simp+
  from render_error_is_caught_without_swap [OF t c k ok err d]
  show ?thesis by (auto simp: v)
qed

text \<open>
  The \<^verbatim>\<open>try\<close> covers the first batch only. With a batch size of 1 the throwing item of
  the sample is in the second batch, which runs in an animation frame: its error is
  not caught and escapes to the host.
\<close>

lemma later_batch_error_escapes:
  "fst (render p_parser FastLoop_substitute (DArray demo_items)
          (throwing_state\<lparr>settings := (settings throwing_state)\<lparr>batchSize := 1\<rparr>\<rparr>))
     = Pending \<lparr>s_data = DArray demo_items, s_batchSize = 1, s_fragment = [0]\<rparr> 1
   \<and> map_option fst
        (run_frames p_parser FastLoop_substitute 1
           (render p_parser FastLoop_substitute (DArray demo_items)
              (throwing_state\<lparr>settings := (settings throwing_state)\<lparr>batchSize := 1\<rparr>\<rparr>)))
     = Some (Escaped (Error ''boom''))"
  by code_simp

text \<open>
  Markup without an element is not skipped: the first of \<open>plain_items\<close> is plain text,
  the render ends with a TypeError on the console and an empty container, although the
  second item alone renders into one child.
\<close>

theorem missing_element_is_not_skipped:
  "p_parser (trim ''plain text'') = None
   \<and> fst (render p_parser FastLoop_substitute (DArray plain_items) plain_state) = Complete
   \<and> console (snd (render p_parser FastLoop_substitute (DArray plain_items) plain_state)) =
       [ConsoleError ''Render error:'' (Some TypeError)]
   \<and> children (snd (render p_parser FastLoop_substitute (DArray plain_items) plain_state)) = []
   \<and> nodes (snd (render p_parser FastLoop_substitute (DArray plain_items) plain_state)) = []
   \<and> children (snd (render p_parser FastLoop_substitute (DArray (tl plain_items)) plain_state)) = [0]"
  by code_simp

text \<open>
  Claim C7, as the code has it: when the markup of item \<open>k\<close> of the first batch yields
  no element and no existing node is reused at position \<open>k\<close>, appending the missing
  element throws a TypeError: no node is appended for the item, and the render is
  aborted there. The error is caught and written to the console, no later item is
  processed (the store is as the items before \<open>k\<close> left it) and nothing is swapped in:
  the children of the container are former children.
\<close>

theorem missing_element_aborts_render:
  assumes t: "templateHtml st \<noteq> []" and c: "capture st = Inr st1"
    and k: "k < length xs" and kb: "k < batchSize (settings st)"
    and ok: "process_items P S 0 (take k xs) ([], st1) = (None, f1, st2)"
    and fresh: "\<not> (reuseNodes (settings st) \<and> k < length (children st))"
    and h: "markup S st k (xs ! k) = Inr h" and none: "P h = None"
    and d: "distinct (children st)"
  shows "process_item P S k (xs ! k) (f1, st2) =
           (Some TypeError, f1, snd (item_html S k (xs ! k) st2))
     \<and> (\<exists>st'. render P S (DArray xs) st = (Complete, st')
          \<and> console st' = console st @ [ConsoleError ''Render error:'' (Some TypeError)]
          \<and> nodes st' = nodes st2
          \<and> children st' = (if reuseNodes (settings st) then drop k (children st) else children st)
          \<and> set (children st') \<subseteq> set (children st))"
proof -
  have lk: "length (take k xs) = k" using k by simp
  note ap = after_prefix [OF c ok d, unfolded lk]
  note s1 = capture_cases [OF c]
  have m: "markup S st2 k (xs ! k) = Inr h"
    using h ap(4) markup_cong [of st2 st S k "xs ! k"] by simp
  have fr: "\<not> (reuseNodes (settings st2) \<and> k < length (existingNodes st2))"
    using fresh ap(4) s1 by (auto split: if_splits)
  define st3 where "st3 = snd (item_html S k (xs ! k) st2)"
  have err: "process_item P S k (xs ! k) (f1, st2) = (Some TypeError, f1, st3)"
    unfolding process_item_markup st3_def using m fr none by simp
  define st' where "st' = log_error ''Render error:'' (Some TypeError) st3"
  have r: "render P S (DArray xs) st = (Complete, st')"
    unfolding st'_def by (rule render_first_batch_error [OF t c k kb ok err])
  have k3: "console st3 = console st2" "nodes st3 = nodes st2" "children st3 = children st2"
    unfolding st3_def by (simp_all add: item_html_keeps)
  have "console st' = console st @ [ConsoleError ''Render error:'' (Some TypeError)]"
    using k3 ap(4) by (simp add: st'_def log_error_def)
  moreover have "nodes st' = nodes st2"
    using k3 by (simp add: st'_def log_error_def)
  moreover have ch: "children st' =
      (if reuseNodes (settings st) then drop k (children st) else children st)"
    using k3 ap(1) by (simp add: st'_def log_error_def)
  moreover have "set (children st') \<subseteq> set (children st)"
    unfolding ch by (auto dest: in_set_dropD)
  ultimately show ?thesis using r err st3_def by blast
qed

theorem missing_element_aborts_render_witness:
  "process_item p_parser FastLoop_substitute 0 (plain_items ! 0) ([], plain_state) =
     (Some TypeError, [], snd (item_html FastLoop_substitute 0 (plain_items ! 0) plain_state))
   \<and> (\<exists>st'. render p_parser FastLoop_substitute (DArray plain_items) plain_state = (Complete, st')
        \<and> console st' = [ConsoleError ''Render error:'' (Some TypeError)]
        \<and> nodes st' = [] \<and> children st' = [])"
proof -
  have t: "templateHtml plain_state \<noteq> []" by code_simp
  have c: "capture plain_state = Inr plain_state"
    by (simp add: capture_def plain_state_def)
  have k: "0 < length plain_items" "0 < batchSize (settings plain_state)" by code_simp+
  have ok: "process_items p_parser FastLoop_substitute 0 (take 0 plain_items) ([], plain_state) =
      (None, [], plain_state)" by simp
  have fresh: "\<not> (reuseNodes (settings plain_state) \<and> 0 < length (children plain_state))"
    by code_simp
  have h: "markup FastLoop_substitute plain_state 0 (plain_items ! 0) = Inr ''plain text''"
    by code_simp
  have none: "p_parser ''plain text'' = None" by code_simp
  have d: "distinct (children plain_state)" by code_simp
  have v: "console plain_state = []" "nodes plain_state = []" "children plain_state = []"
    by code_simp+
  from missing_element_aborts_render [OF t c k ok fresh h none d]
  show ?thesis by (auto simp: v)
qed

section \<open>Further examples on the sample document\<close>

theorem shorter_rerender_reuses_nodes_witness:
  "\<exists>r. run_frames p_parser FastLoop_substitute 0
         (render p_parser FastLoop_substitute (DArray [JObj [(''name'', JStr ''Z'')]]) demo_state) = Some r
     \<and> fst r = Complete
     \<and> children demo_state = [0, 1]
     \<and> children (snd r) = [0]
     \<and> expando (nodes (snd r) ! 0) = [''marker'']
     \<and> tag (nodes (snd r) ! 0) = ''li''
     \<and> innerHTML (nodes (snd r) ! 0) = ''<p>1:Z</p>''"
proof -
  let ?xs = "[JObj [(''name'', JStr ''Z'')]]"
  have v: "reuseNodes (settings demo_state)" "container demo_state"
    "templateHtml demo_state \<noteq> []" "1 \<le> batchSize (settings demo_state)"
    "distinct (children demo_state)"
    by code_simp+
  have wf: "\<forall>n \<in> set (children demo_state). n < length (nodes demo_state)"
    by code_simp
  have sh: "length ?xs < length (children demo_state)" by code_simp
  have m: "markup FastLoop_substitute demo_state 0 (?xs ! 0) = Inr ''<p>1:Z</p>''" by code_simp
  then have ok: "\<forall>i < length ?xs. \<exists>h. markup FastLoop_substitute demo_state i (?xs ! i) = Inr h"
    by simp
  have w: "children demo_state = [0, 1]" "expando (nodes demo_state ! 0) = [''marker'']"
    "tag (nodes demo_state ! 0) = ''li''"
    "frames_needed (length ?xs) (batchSize (settings demo_state)) = 0"
    by code_simp+
  from shorter_rerender_reuses_nodes [OF v wf sh ok, of p_parser]
  obtain r where r: "run_frames p_parser FastLoop_substitute
        (frames_needed (length ?xs) (batchSize (settings demo_state)))
        (render p_parser FastLoop_substitute (DArray ?xs) demo_state) = Some r"
    "fst r = Complete"
    "children (snd r) = take (length ?xs) (children demo_state)"
    "nodes (snd r) ! (children demo_state ! 0) =
       (nodes demo_state ! (children demo_state ! 0))
         \<lparr>innerHTML := innerHTML (nodes (snd r) ! (children demo_state ! 0))\<rparr>"
    "markup FastLoop_substitute demo_state 0 (?xs ! 0) =
       Inr (innerHTML (nodes (snd r) ! (children demo_state ! 0)))"
    by auto
  from r(4) have "expando (nodes (snd r) ! (children demo_state ! 0)) =
      expando (nodes demo_state ! (children demo_state ! 0))"
    "tag (nodes (snd r) ! (children demo_state ! 0)) =
      tag (nodes demo_state ! (children demo_state ! 0))"
    using arg_cong [OF r(4), of expando] arg_cong [OF r(4), of tag] by simp_all
  with r m w show ?thesis by (auto simp: w)
qed


theorem empty_template_renders_nothing_witness:
  "FastLoop_render p_parser (DArray demo_items) (demo_state\<lparr>templateHtml := []\<rparr>) =
     (Complete, demo_state\<lparr>templateHtml := []\<rparr>)
   \<and> (\<exists>st'. FastLoop_new p_parser CElement (demo_raw\<lparr>o_template := Passed (TString [])\<rparr>) demo_dom =
              Inr (Complete, st') \<and> dom_of st' = demo_dom)
   \<and> (\<exists>st'. loopHtml p_parser (demo_raw\<lparr>o_template := Undefined\<rparr>) demo_dom =
              Installed Complete st' \<and> dom_of st' = demo_dom)"
proof -
  let ?raw = "demo_raw\<lparr>o_template := Passed (TString [])\<rparr>"
  let ?raw' = "demo_raw\<lparr>o_template := Undefined\<rparr>"
  let ?st = "demo_state\<lparr>templateHtml := []\<rparr>"
  have a: "templateHtml ?st = []" by simp
  have b: "template (Object_assign ?raw) = TString [] \<or> template (Object_assign ?raw) = TElement []"
    by (simp add: Object_assign_def)
  have b': "template (jquery_extend ?raw') = TString [] \<or> template (jquery_extend ?raw') = TElement []"
    by (simp add: jquery_extend_def default_options_def)
  have ok: "\<not> (validateData (Object_assign ?raw) \<and> \<not> is_array (data (Object_assign ?raw)))"
    "\<not> (validateData (jquery_extend ?raw') \<and> \<not> is_array (data (jquery_extend ?raw')))"
    by (simp_all add: Object_assign_def jquery_extend_def demo_raw_def is_array_def)
  obtain s st' where n: "FastLoop_new p_parser CElement ?raw demo_dom = Inr (s, st')"
    using ok(1) b
    by (cases "FastLoop_render p_parser (data (Object_assign ?raw))
        \<lparr>nodes = nodes demo_dom, children = children demo_dom, console = console demo_dom,
         settings = Object_assign ?raw, container = True, templateHtml = [], compiledTemplate = None,
         existingNodes = []\<rparr>")
      (auto simp: FastLoop_new_def FastLoop_init_def)
  obtain s2 st2 where e: "loopHtml p_parser ?raw' demo_dom = Installed s2 st2"
    using ok(2) b'
    by (cases "loopHtml_render p_parser (data (jquery_extend ?raw'))
        \<lparr>nodes = nodes demo_dom, children = children demo_dom, console = console demo_dom,
         settings = jquery_extend ?raw', container = True, templateHtml = [], compiledTemplate = None,
         existingNodes = []\<rparr>")
      (auto simp: loopHtml_def loopHtml_each_def Let_def)
  from empty_template_renders_nothing [OF a b, where P = p_parser and dat = "DArray demo_items"
      and cont = CElement and d = demo_dom and raw = ?raw] b n
  have 1: "FastLoop_render p_parser (DArray demo_items) ?st = (Complete, ?st)"
    "\<exists>st'. FastLoop_new p_parser CElement ?raw demo_dom = Inr (Complete, st') \<and> dom_of st' = demo_dom"
    by auto
  from empty_template_renders_nothing [OF a b, where P = p_parser and d = demo_dom and raw = ?raw'] b' e
  have 2: "\<exists>st'. loopHtml p_parser ?raw' demo_dom = Installed Complete st' \<and> dom_of st' = demo_dom"
    by auto
  from 1 2 show ?thesis by blast
qed


theorem invalid_data_is_rejected_before_rendering_witness:
  "loopHtml p_parser (demo_raw\<lparr>o_data := Passed DNullish\<rparr>) demo_dom =
        NotInstalled (demo_dom\<lparr>console := [ConsoleError ''Data must be an array!'' None]\<rparr>)
   \<and> FastLoop_new p_parser (CSelector Found) (demo_raw\<lparr>o_data := Undefined\<rparr>) demo_dom =
        Inl (Error ''Data must be an array!'')
   \<and> FastLoop_new p_parser (CSelector BadSelector) (demo_raw\<lparr>o_data := Undefined\<rparr>) demo_dom =
        Inl SyntaxError
   \<and> data (jquery_extend (demo_raw\<lparr>o_data := Undefined\<rparr>)) = DArray []"
proof -
  let ?null = "demo_raw\<lparr>o_data := Passed DNullish\<rparr>"
  let ?undef = "demo_raw\<lparr>o_data := Undefined\<rparr>"
  have v: "validateData (jquery_extend ?null) \<and> \<not> is_array (data (jquery_extend ?null))"
    "validateData (Object_assign ?undef) \<and> \<not> is_array (data (Object_assign ?undef))"
    "o_data ?undef = Undefined"
    by (simp_all add: Object_assign_def jquery_extend_def default_options_def demo_raw_def
        is_array_def)
  have c: "console demo_dom = []" by (simp add: demo_dom_def)
  note T = invalid_data_is_rejected_before_rendering
  from T [of ?null p_parser demo_dom] v(1) c
  have 1: "loopHtml p_parser ?null demo_dom =
        NotInstalled (demo_dom\<lparr>console := [ConsoleError ''Data must be an array!'' None]\<rparr>)"
    by simp
  from T [where raw = ?undef and P = p_parser and d = demo_dom and cont = "CSelector Found"] v(2)
  have 2: "FastLoop_new p_parser (CSelector Found) ?undef demo_dom =
        Inl (Error ''Data must be an array!'')" by simp
  from T [where raw = ?undef and P = p_parser and d = demo_dom and cont = "CSelector BadSelector"] v(2)
  have 3: "FastLoop_new p_parser (CSelector BadSelector) ?undef demo_dom = Inl SyntaxError" by simp
  from T [where raw = ?undef] v(3)
  have 4: "data (jquery_extend ?undef) = DArray []" by blast
  from 1 2 3 4 show ?thesis by (intro conjI)
qed

lemma own_index_facts:
  "renderCallback (settings demo_state) = None"
  "cached_template demo_state = ''<p>'' @ ''{{index}}'' @ '':{{name}}</p>''"
  "templateHtml demo_state \<noteq> []"
  "1 \<le> batchSize (settings demo_state)"
  "container demo_state"
  "distinct (children demo_state)"
  "\<forall>n \<in> set (children demo_state). n < length (nodes demo_state)"
  "reuseNodes (settings demo_state)"
  "length (children demo_state) = 2"
  "length own_index_items = 3"
  "frames_needed (length own_index_items) (batchSize (settings demo_state)) = 1"
  by code_simp+

lemma own_index_pass:
  "fst (process_items p_parser FastLoop_substitute 0 own_index_items
          ([], demo_state\<lparr>existingNodes := [0, 1]\<rparr>)) = None"
  "fst (process_items p_parser loopHtml_substitute 0 own_index_items
          ([], demo_state\<lparr>existingNodes := [0, 1]\<rparr>)) = None"
  by code_simp+

lemma own_index_parts:
  "FastLoop_substitute ''<p>'' (own_index_items ! 1) 1 = Inr ''<p>''"
  "FastLoop_substitute '':{{name}}</p>'' (own_index_items ! 1) 1 = Inr '':B</p>''"
  "loopHtml_substitute ''<p>'' (own_index_items ! 2) 2 = Inr ''<p>''"
  "loopHtml_substitute '':{{name}}</p>'' (own_index_items ! 2) 2 = Inr '':C</p>''"
  "trim (''<p>'' @ show_nat (1 + 1) @ '':B</p>'') = ''<p>2:B</p>''"
  "trim (''<p>'' @ show_nat (2 + 1) @ '':C</p>'') = ''<p>3:C</p>''"
  "p_parser ''<p>3:C</p>'' = Some \<lparr>tag = ''p'', innerHTML = ''3:C'', expando = []\<rparr>"
  "children demo_state ! 1 = 1"
  "nodes demo_state ! 1 = \<lparr>tag = ''li'', innerHTML = ''x'', expando = []\<rparr>"
  by code_simp+

theorem index_placeholder_renders_position_witness:
  "(\<exists>r. run_frames p_parser FastLoop_substitute 1
          (render p_parser FastLoop_substitute (DArray own_index_items) demo_state) = Some r
      \<and> fst r = Complete
      \<and> length (children (snd r)) = 3
      \<and> get_prop (own_index_items ! 1) ''index'' = Inr (JStr ''own'')
      \<and> children (snd r) ! 1 = 1
      \<and> nodes (snd r) ! 1 = \<lparr>tag = ''li'', innerHTML = ''<p>2:B</p>'', expando = []\<rparr>)
   \<and> (\<exists>r. run_frames p_parser loopHtml_substitute 1
          (render p_parser loopHtml_substitute (DArray own_index_items) demo_state) = Some r
      \<and> fst r = Complete
      \<and> get_prop (own_index_items ! 2) ''index'' = Inr (JNum 7)
      \<and> nodes (snd r) ! (children (snd r) ! 2) =
           \<lparr>tag = ''p'', innerHTML = ''3:C'', expando = []\<rparr>)"
proof -
  note f = own_index_facts
  note T = index_placeholder_renders_position [where st = demo_state and P = p_parser
      and xs = own_index_items and pre = "''<p>''" and rest = "'':{{name}}</p>''"
      and ?st1.0 = "demo_state\<lparr>existingNodes := [0, 1]\<rparr>",
      OF _ f(1) f(2) f(3) f(4) f(5) f(6) f(7) demo_capture]
  have g: "get_prop (own_index_items ! 1) ''index'' = Inr (JStr ''own'')"
    "get_prop (own_index_items ! 2) ''index'' = Inr (JNum 7)"
    by code_simp+
  have i1: "(1::nat) < length own_index_items" and i2: "(2::nat) < length own_index_items"
    by (simp_all add: f)
  from T [where S = FastLoop_substitute and i = 1, OF _ own_index_pass(1) i1]
  obtain r a b where r: "run_frames p_parser FastLoop_substitute
        (frames_needed (length own_index_items) (batchSize (settings demo_state)))
        (render p_parser FastLoop_substitute (DArray own_index_items) demo_state) = Some r"
    "fst r = Complete" "length (children (snd r)) = length own_index_items"
    and ab: "FastLoop_substitute ''<p>'' (own_index_items ! 1) 1 = Inr a"
      "FastLoop_substitute '':{{name}}</p>'' (own_index_items ! 1) 1 = Inr b"
    and n: "if reuseNodes (settings demo_state) \<and> 1 < length (children demo_state)
         then children (snd r) ! 1 = children demo_state ! 1
            \<and> nodes (snd r) ! (children (snd r) ! 1) =
                (nodes demo_state ! (children demo_state ! 1))\<lparr>innerHTML := trim (a @ show_nat (1 + 1) @ b)\<rparr>
         else p_parser (trim (a @ show_nat (1 + 1) @ b)) = Some (nodes (snd r) ! (children (snd r) ! 1))"
    by blast
  from ab have a: "a = ''<p>''" "b = '':B</p>''" unfolding own_index_parts by simp_all
  from n have n': "children (snd r) ! 1 = children demo_state ! 1
            \<and> nodes (snd r) ! (children (snd r) ! 1) =
                (nodes demo_state ! (children demo_state ! 1))\<lparr>innerHTML := trim (a @ show_nat (1 + 1) @ b)\<rparr>"
    using f(8) f(9) by auto
  then have c1: "children (snd r) ! 1 = 1"
    and n1: "nodes (snd r) ! 1 = \<lparr>tag = ''li'', innerHTML = ''<p>2:B</p>'', expando = []\<rparr>"
    unfolding a own_index_parts by auto
  have first: "\<exists>r. run_frames p_parser FastLoop_substitute 1
          (render p_parser FastLoop_substitute (DArray own_index_items) demo_state) = Some r
      \<and> fst r = Complete
      \<and> length (children (snd r)) = 3
      \<and> get_prop (own_index_items ! 1) ''index'' = Inr (JStr ''own'')
      \<and> children (snd r) ! 1 = 1
      \<and> nodes (snd r) ! 1 = \<lparr>tag = ''li'', innerHTML = ''<p>2:B</p>'', expando = []\<rparr>"
    using r [unfolded f(11)] c1 n1 g(1) f(10) by - (rule exI [of _ r], simp)
  from T [where S = loopHtml_substitute and i = 2, OF _ own_index_pass(2) i2]
  obtain r' a' b' where r': "run_frames p_parser loopHtml_substitute
        (frames_needed (length own_index_items) (batchSize (settings demo_state)))
        (render p_parser loopHtml_substitute (DArray own_index_items) demo_state) = Some r'"
    "fst r' = Complete"
    and ab': "loopHtml_substitute ''<p>'' (own_index_items ! 2) 2 = Inr a'"
      "loopHtml_substitute '':{{name}}</p>'' (own_index_items ! 2) 2 = Inr b'"
    and m: "if reuseNodes (settings demo_state) \<and> 2 < length (children demo_state)
         then children (snd r') ! 2 = children demo_state ! 2
            \<and> nodes (snd r') ! (children (snd r') ! 2) =
                (nodes demo_state ! (children demo_state ! 2))\<lparr>innerHTML := trim (a' @ show_nat (2 + 1) @ b')\<rparr>
         else p_parser (trim (a' @ show_nat (2 + 1) @ b')) = Some (nodes (snd r') ! (children (snd r') ! 2))"
    by blast
  from ab' have a': "a' = ''<p>''" "b' = '':C</p>''" unfolding own_index_parts by simp_all
  from m have "p_parser (trim (a' @ show_nat (2 + 1) @ b')) = Some (nodes (snd r') ! (children (snd r') ! 2))"
    using f(8) f(9) by simp
  then have n2: "nodes (snd r') ! (children (snd r') ! 2) =
           \<lparr>tag = ''p'', innerHTML = ''3:C'', expando = []\<rparr>"
    unfolding a' own_index_parts by simp
  have second: "\<exists>r. run_frames p_parser loopHtml_substitute 1
          (render p_parser loopHtml_substitute (DArray own_index_items) demo_state) = Some r
      \<and> fst r = Complete
      \<and> get_prop (own_index_items ! 2) ''index'' = Inr (JNum 7)
      \<and> nodes (snd r) ! (children (snd r) ! 2) =
           \<lparr>tag = ''p'', innerHTML = ''3:C'', expando = []\<rparr>"
    using r' [unfolded f(11)] n2 g(2) by - (rule exI [of _ r'], simp)
  from first second show ?thesis by (intro conjI)
qed

end
